theory Spec2Isabelle
  imports Complex_Main "HOL-Library.Sublist" "HOL-Library.Log_Nat"
begin

section \<open>Values of the platform\<close>

text \<open>
  A JavaScript string is a sequence of code units. The model uses \<^typ>\<open>string\<close>: its
  characters are the code units below 256, which covers every literal of \<^verbatim>\<open>App.tsx\<close>.

  A JavaScript number is a double. The model keeps the finite values as rationals and
  rounds the result of every division and multiplication to the nearest double with
  53 significant bits, ties to even (\<open>round_double\<close>). Overflow to infinity and
  subnormal numbers are outside \<open>round_double\<close>: the quotients and products of the
  program lie between \<open>2 powi -32\<close> and \<open>2 powi 53\<close>. The numbers that
  \<^verbatim>\<open>JSON.parse\<close> reads from a stored text can be any double
  (\<open>string_to_number\<close> below).
\<close>

type_synonym number = rat

definition round_half_even :: "rat \<Rightarrow> int" where
  "round_half_even x =
     (let f = \<lfloor>x\<rfloor>; d = x - of_int f
      in if d < 1 / 2 then f
         else if 1 / 2 < d then f + 1
         else if even f then f else f + 1)"

text \<open>The exponent \<open>e\<close> with \<open>2 powi e \<le> x < 2 powi (e + 1)\<close>, for \<open>0 < x\<close>.\<close>

definition binade :: "rat \<Rightarrow> int" where
  "binade x =
     (let (p, q) = quotient_of x;
          d = int (floorlog 2 (nat p)) - int (floorlog 2 (nat q))
      in if 2 powi d \<le> x then d else d - 1)"

definition round_double :: "rat \<Rightarrow> number" where
  "round_double x =
     (if x = 0 then 0
      else let u = 2 powi (binade \<bar>x\<bar> - 52)
           in sgn x * of_int (round_half_even (\<bar>x\<bar> / u)) * u)"

definition js_div :: "number \<Rightarrow> number \<Rightarrow> number" where
  "js_div a b = round_double (a / b)"

definition js_mul :: "number \<Rightarrow> number \<Rightarrow> number" where
  "js_mul a b = round_double (a * b)"

text \<open>\<^verbatim>\<open>Number.prototype.toString\<close> on a non-negative integer below \<open>10 ^ 21\<close>.\<close>

definition digit_char :: "nat \<Rightarrow> char" where
  "digit_char d = char_of (48 + d)"

function nat_toString :: "nat \<Rightarrow> string" where
  "nat_toString n =
     (if n < 10 then [digit_char n]
      else nat_toString (n div 10) @ [digit_char (n mod 10)])"
  by pat_completeness auto
termination
  by (relation "measure (\<lambda>n. n)") auto

declare nat_toString.simps [simp del]

text \<open>
  \<^verbatim>\<open>x.toFixed(2)\<close> for \<open>0 \<le> x < 10 ^ 21\<close>: the integer \<open>n\<close> with \<open>n / 100\<close> nearest
  to \<open>x\<close>, the larger one on a tie, printed with two digits after the point.
\<close>

definition toFixed2 :: "number \<Rightarrow> string" where
  "toFixed2 x =
     (let n = nat \<lfloor>x * 100 + 1 / 2\<rfloor>
      in nat_toString (n div 100) @ ''.'' @
         [digit_char (n mod 100 div 10), digit_char (n mod 10)])"




datatype js_error = Error string | SyntaxError | QuotaExceededError | ProgressEvent

datatype log_arg = Str string | Err js_error

section \<open>Data of the application\<close>

record File =
  file_name :: string
  file_size :: nat
  file_type :: string

record ImageData =
  image_id :: string
  image_name :: string
  originalName :: string
  src :: string
  image_size :: nat
  image_type :: string
  uploadDate :: string

text \<open>
  The component's state: the eight \<^verbatim>\<open>useState\<close> cells, the value of the file input
  behind \<^verbatim>\<open>fileInputRef\<close> (\<open>None\<close> when the ref is null), the lines written with
  \<^verbatim>\<open>console.error\<close>, and the arguments of every \<^verbatim>\<open>setUploadProgress\<close> call in
  the order of the calls.
\<close>

record app_state =
  images :: "ImageData list"
  searchTerm :: string
  isDarkMode :: bool
  dragActive :: bool
  uploading :: bool
  uploadProgress :: number
  selectedImage :: "ImageData option"
  previewFiles :: "File list"
  fileInputValue :: "string option"
  console :: "(string \<times> log_arg) list"
  progressReports :: "number list"

definition initial_state :: app_state where
  "initial_state =
     \<lparr>images = [], searchTerm = [], isDarkMode = False, dragActive = False,
      uploading = False, uploadProgress = 0, selectedImage = None, previewFiles = [],
      fileInputValue = Some [], console = [], progressReports = []\<rparr>"

definition console_error :: "string \<Rightarrow> log_arg \<Rightarrow> app_state \<Rightarrow> app_state" where
  "console_error label arg s = s\<lparr>console := console s @ [(label, arg)]\<rparr>"

definition setUploadProgress :: "number \<Rightarrow> app_state \<Rightarrow> app_state" where
  "setUploadProgress p s =
     s\<lparr>uploadProgress := p, progressReports := progressReports s @ [p]\<rparr>"

section \<open>File validation\<close>

definition validTypes :: "string list" where
  "validTypes = [''image/jpeg'', ''image/jpg'', ''image/png'', ''image/gif'', ''image/webp'']"

definition maxSize :: nat where
  "maxSize = 10 * 1024 * 1024"

definition validateFile :: "File \<Rightarrow> js_error + bool" where
  "validateFile file =
     (if \<not> (file_type file \<in> set validTypes) then
        Inl (Error (''Invalid file type: '' @ file_type file @
                    ''. Please upload images only.''))
      else if file_size file > maxSize then
        Inl (Error (''File too large: '' @
                    toFixed2 (js_div (js_div (of_nat (file_size file)) 1024) 1024) @
                    ''MB. Maximum size is 10MB.''))
      else Inr True)"

section \<open>Deleting and searching\<close>

definition deleteImage :: "string \<Rightarrow> ImageData list \<Rightarrow> ImageData list" where
  "deleteImage imageId prev = filter (\<lambda>img. image_id img \<noteq> imageId) prev"


section \<open>Uploading\<close>

text \<open>
  The environment of one upload: what the \<^verbatim>\<open>FileReader\<close> delivers for a file (a
  string, something that is not a string, or the error event), and the readings of the
  clock and of the random generator while the file at a given index is processed.
  \<open>random_suffix\<close> stands for \<^verbatim>\<open>Math.random().toString(36).substr(2, 9)\<close>.
\<close>

datatype read_result = Loaded string | LoadedOther | Failed

record upload_env =
  readAsDataURL :: "File \<Rightarrow> read_result"
  date_now :: "nat \<Rightarrow> nat"
  random_suffix :: "nat \<Rightarrow> string"
  date_iso :: "nat \<Rightarrow> string"

definition fileToBase64 :: "upload_env \<Rightarrow> File \<Rightarrow> js_error + string" where
  "fileToBase64 env file =
     (case readAsDataURL env file of
        Loaded result \<Rightarrow> Inr result
      | LoadedOther \<Rightarrow> Inl (Error ''Failed to convert file to base64'')
      | Failed \<Rightarrow> Inl ProgressEvent)"

text \<open>
  \<^verbatim>\<open>name.replace(/\.[^/.]+$/, "")\<close>: the pattern matches from the last dot to the end
  when at least one code unit follows that dot and none of them is a slash.
\<close>

definition removeExtension :: "string \<Rightarrow> string" where
  "removeExtension s =
     (let ext = takeWhile (\<lambda>c. c \<noteq> CHR ''.'') (rev s)
      in if length ext < length s \<and> ext \<noteq> [] \<and> CHR ''/'' \<notin> set ext
         then take (length s - length ext - 1) s else s)"

text \<open>
  The message of a caught error, as \<^verbatim>\<open>(error as Error).message\<close> reads it.
  \<open>validateFile\<close> throws nothing but \<open>Error\<close>; the model logs any other error whole.
\<close>

definition error_message :: "js_error \<Rightarrow> log_arg" where
  "error_message error = (case error of Error m \<Rightarrow> Str m | _ \<Rightarrow> Err error)"

fun validate_loop :: "File list \<Rightarrow> File list \<times> app_state \<Rightarrow> File list \<times> app_state" where
  "validate_loop [] (validFiles, s) = (validFiles, s)"
| "validate_loop (file # rest) (validFiles, s) =
     (case validateFile file of
        Inr ok \<Rightarrow> validate_loop rest (validFiles @ [file], s)
      | Inl error \<Rightarrow>
          validate_loop rest
            (validFiles,
             console_error (''File validation failed for '' @ file_name file @ '':'')
               (error_message error) s))"

definition makeImageData :: "upload_env \<Rightarrow> nat \<Rightarrow> File \<Rightarrow> string \<Rightarrow> ImageData" where
  "makeImageData env i file base64 =
     \<lparr>image_id = nat_toString (date_now env i) @ random_suffix env i,
      image_name = removeExtension (file_name file),
      originalName = file_name file,
      src = base64,
      image_size = file_size file,
      image_type = file_type file,
      uploadDate = date_iso env i\<rparr>"

definition progress_at :: "nat \<Rightarrow> nat \<Rightarrow> number" where
  "progress_at i n = js_mul (js_div (of_nat (i + 1)) (of_nat n)) 100"

function process_loop ::
  "upload_env \<Rightarrow> File list \<Rightarrow> nat \<Rightarrow> ImageData list \<times> app_state \<Rightarrow> ImageData list \<times> app_state"
where
  "process_loop env validFiles i (newImages, s) =
     (if i < length validFiles then
        (let file = validFiles ! i
         in case fileToBase64 env file of
              Inr base64 \<Rightarrow>
                process_loop env validFiles (i + 1)
                  (newImages @ [makeImageData env i file base64],
                   setUploadProgress (progress_at i (length validFiles)) s)
            | Inl error \<Rightarrow>
                process_loop env validFiles (i + 1)
                  (newImages,
                   console_error (''Error processing '' @ file_name file @ '':'') (Err error) s))
      else (newImages, s))"
  by pat_completeness auto
termination
  by (relation "measure (\<lambda>(env, validFiles, i, acc). length validFiles - i)") auto

declare process_loop.simps [simp del]

text \<open>
  The body of the outer \<^verbatim>\<open>try\<close>: the error it throws, if any, and the state it leaves.
  The pause between two files changes no state and is left out.
\<close>

definition upload_try :: "upload_env \<Rightarrow> File list \<Rightarrow> app_state \<Rightarrow> js_error option \<times> app_state" where
  "upload_try env files s =
     (let (validFiles, s1) = validate_loop files ([], s)
      in if length validFiles = 0 then (Some (Error ''No valid image files to upload''), s1)
         else
           let (newImages, s2) = process_loop env validFiles 0 ([], s1)
           in (None,
               if length newImages > 0 then s2\<lparr>images := images s2 @ newImages\<rparr> else s2))"

text \<open>
  \<^verbatim>\<open>handleFileUpload\<close>: \<open>None\<close> is the null file list. The \<^verbatim>\<open>catch\<close> logs whatever the
  body threw, the \<^verbatim>\<open>finally\<close> resets the upload state, so the call always completes
  with a state. The program waits for the reader between two files; the model takes
  the whole call as one step, with no other event of the page in between.
\<close>

definition handleFileUpload :: "upload_env \<Rightarrow> File list option \<Rightarrow> app_state \<Rightarrow> app_state" where
  "handleFileUpload env files s =
     (case files of
        None \<Rightarrow> s
      | Some fl \<Rightarrow>
          if length fl = 0 then s
          else
            let s0 = setUploadProgress 0 (s\<lparr>uploading := True\<rparr>);
                (thrown, s1) = upload_try env fl s0;
                s2 = (case thrown of
                        None \<Rightarrow> s1
                      | Some error \<Rightarrow> console_error ''Upload error:'' (Err error) s1);
                s3 = setUploadProgress 0 (s2\<lparr>uploading := False\<rparr>);
                s4 = s3\<lparr>previewFiles := []\<rparr>
            in case fileInputValue s4 of
                 None \<Rightarrow> s4
               | Some v \<Rightarrow> s4\<lparr>fileInputValue := Some []\<rparr>)"

section \<open>JSON\<close>

text \<open>
  The values of \<^verbatim>\<open>JSON.parse\<close>. A string value is a list of code units, since an escape
  \<^verbatim>\<open>\uXXXX\<close> can name any of them. A number is the double nearest to its literal, an
  infinity when the literal is too large; the two zeros of the platform are one value
  here. The members of an object are kept in the order of the text.
\<close>

datatype js_number = Finite rat | PlusInfinity | MinusInfinity

datatype json = JNull | JBool bool | JNumber js_number | JString "nat list" | JArray "json list"
  | JObject "(nat list \<times> json) list"

text \<open>
  The double that the platform reads from a literal of exact value \<open>x\<close>: the nearest
  one, ties to even, with the fixed spacing \<open>2 powi - 1074\<close> of the subnormal numbers
  below \<open>2 powi - 1022\<close>, and an infinity from \<open>2 ^ 1024\<close> on.
\<close>

definition string_to_number :: "rat \<Rightarrow> js_number" where
  "string_to_number x =
     (if x = 0 then Finite 0
      else let u = 2 powi (max (binade \<bar>x\<bar>) (- 1022) - 52);
               r = of_int (round_half_even (\<bar>x\<bar> / u)) * u
           in if 2 ^ 1024 \<le> r then (if 0 < x then PlusInfinity else MinusInfinity)
              else Finite (sgn x * r))"

text \<open>Parsing: white space, digits, the escapes of a string.\<close>

definition is_ws :: "char \<Rightarrow> bool" where
  "is_ws c = (of_char c \<in> {32, 9, 10, 13 :: nat})"

definition skip_ws :: "string \<Rightarrow> string" where
  "skip_ws s = dropWhile is_ws s"

definition is_digit :: "char \<Rightarrow> bool" where
  "is_digit c = (48 \<le> (of_char c :: nat) \<and> (of_char c :: nat) \<le> 57)"

definition digit_val :: "char \<Rightarrow> nat" where
  "digit_val c = of_char c - 48"

definition digits_val :: "string \<Rightarrow> nat" where
  "digits_val ds = foldl (\<lambda>n c. 10 * n + digit_val c) 0 ds"

definition hex_val :: "char \<Rightarrow> nat option" where
  "hex_val c =
     (let n = (of_char c :: nat)
      in if 48 \<le> n \<and> n \<le> 57 then Some (n - 48)
         else if 65 \<le> n \<and> n \<le> 70 then Some (n - 55)
         else if 97 \<le> n \<and> n \<le> 102 then Some (n - 87)
         else None)"

definition unescape :: "char \<Rightarrow> nat option" where
  "unescape e =
     (let n = (of_char e :: nat)
      in if n = 34 then Some 34
         else if n = 92 then Some 92
         else if n = 47 then Some 47
         else if n = 98 then Some 8
         else if n = 102 then Some 12
         else if n = 110 then Some 10
         else if n = 114 then Some 13
         else if n = 116 then Some 9
         else None)"

fun parse_chars :: "string \<Rightarrow> (nat list \<times> string) option" where
  "parse_chars [] = None"
| "parse_chars (c # cs) =
     (if c = CHR 0x22 then Some ([], cs)
      else if c = CHR 0x5C then
        (case cs of
           [] \<Rightarrow> None
         | e # rest \<Rightarrow>
             if e = CHR ''u'' then
               (case rest of
                  h1 # h2 # h3 # h4 # rest' \<Rightarrow>
                    (case (hex_val h1, hex_val h2, hex_val h3, hex_val h4) of
                       (Some a, Some b, Some c, Some d) \<Rightarrow>
                         map_option (\<lambda>(str, r). ((((a * 16 + b) * 16 + c) * 16 + d) # str, r))
                           (parse_chars rest')
                     | _ \<Rightarrow> None)
                | _ \<Rightarrow> None)
             else
               (case unescape e of
                  Some u \<Rightarrow> map_option (\<lambda>(str, r). (u # str, r)) (parse_chars rest)
                | None \<Rightarrow> None))
      else if (of_char c :: nat) < 32 then None
      else map_option (\<lambda>(str, r). (of_char c # str, r)) (parse_chars cs))"

text \<open>
  The literal of a number: an optional minus, an integer part without a leading zero, a
  fraction, an exponent. \<open>parse_number\<close> gives its exact value.
\<close>

definition parse_frac :: "string \<Rightarrow> (string \<times> string) option" where
  "parse_frac s =
     (case s of
        [] \<Rightarrow> Some ([], s)
      | c # r \<Rightarrow>
          if c = CHR ''.'' then
            (let fp = takeWhile is_digit r
             in if fp = [] then None else Some (fp, dropWhile is_digit r))
          else Some ([], s))"

definition parse_exp :: "string \<Rightarrow> (int \<times> string) option" where
  "parse_exp s =
     (case s of
        [] \<Rightarrow> Some (0, s)
      | c # r \<Rightarrow>
          if c = CHR ''e'' \<or> c = CHR ''E'' then
            (let minus = (case r of [] \<Rightarrow> False | d # r' \<Rightarrow> d = CHR ''-'');
                 plus = (case r of [] \<Rightarrow> False | d # r' \<Rightarrow> d = CHR ''+'');
                 r1 = (if minus \<or> plus then tl r else r);
                 ds = takeWhile is_digit r1
             in if ds = [] then None
                else Some ((if minus then - 1 else 1) * int (digits_val ds), dropWhile is_digit r1))
          else Some (0, s))"

definition parse_number :: "string \<Rightarrow> (rat \<times> string) option" where
  "parse_number s =
     (let minus = (case s of [] \<Rightarrow> False | c # r \<Rightarrow> c = CHR ''-'');
          s1 = (if minus then tl s else s);
          ip = takeWhile is_digit s1
      in if ip = [] \<or> (hd ip = CHR ''0'' \<and> 1 < length ip) then None
         else
           (case parse_frac (dropWhile is_digit s1) of
              None \<Rightarrow> None
            | Some (fp, s3) \<Rightarrow>
                (case parse_exp s3 of
                   None \<Rightarrow> None
                 | Some (ex, s4) \<Rightarrow>
                     Some ((if minus then - 1 else 1) *
                           (of_nat (digits_val ip) + of_nat (digits_val fp) / 10 ^ length fp) *
                           10 powi ex, s4))))"

definition parse_literal :: "string \<Rightarrow> json \<Rightarrow> string \<Rightarrow> (json \<times> string) option" where
  "parse_literal word v s = (if prefix word s then Some (v, drop (length word) s) else None)"

text \<open>
  A value, the elements of an array after its bracket, the members of an object after
  its brace. Each returns what it read and the rest of the text. The tests
  \<open>length r < length s\<close> are always true (\<open>parse_value_shorter\<close>); they are there for
  the termination proof.
\<close>

function parse_value :: "string \<Rightarrow> (json \<times> string) option"
  and parse_elements :: "string \<Rightarrow> (json list \<times> string) option"
  and parse_members :: "string \<Rightarrow> ((nat list \<times> json) list \<times> string) option"
where
  "parse_value s =
     (case skip_ws s of
        [] \<Rightarrow> None
      | c # cs \<Rightarrow>
          if c = CHR ''{'' then
            (case skip_ws cs of
               [] \<Rightarrow> None
             | c' # cs' \<Rightarrow>
                 if c' = CHR ''}'' then Some (JObject [], cs')
                 else map_option (\<lambda>(ms, r). (JObject ms, r)) (parse_members (c' # cs')))
          else if c = CHR ''['' then
            (case skip_ws cs of
               [] \<Rightarrow> None
             | c' # cs' \<Rightarrow>
                 if c' = CHR '']'' then Some (JArray [], cs')
                 else map_option (\<lambda>(vs, r). (JArray vs, r)) (parse_elements (c' # cs')))
          else if c = CHR 0x22 then map_option (\<lambda>(str, r). (JString str, r)) (parse_chars cs)
          else if c = CHR ''t'' then parse_literal ''true'' (JBool True) (c # cs)
          else if c = CHR ''f'' then parse_literal ''false'' (JBool False) (c # cs)
          else if c = CHR ''n'' then parse_literal ''null'' JNull (c # cs)
          else map_option (\<lambda>(x, r). (JNumber (string_to_number x), r)) (parse_number (c # cs)))"
| "parse_elements s =
     (case parse_value s of
        None \<Rightarrow> None
      | Some (v, r) \<Rightarrow>
          if length r < length s then
            (case skip_ws r of
               [] \<Rightarrow> None
             | c # cs \<Rightarrow>
                 if c = CHR '','' then map_option (\<lambda>(vs, r'). (v # vs, r')) (parse_elements cs)
                 else if c = CHR '']'' then Some ([v], cs)
                 else None)
          else None)"
| "parse_members s =
     (case skip_ws s of
        [] \<Rightarrow> None
      | c # cs \<Rightarrow>
          if c = CHR 0x22 then
            (case parse_chars cs of
               None \<Rightarrow> None
             | Some (k, r) \<Rightarrow>
                 (case skip_ws r of
                    [] \<Rightarrow> None
                  | c2 # r2 \<Rightarrow>
                      if c2 = CHR '':'' then
                        (case parse_value r2 of
                           None \<Rightarrow> None
                         | Some (v, r3) \<Rightarrow>
                             if length r3 < length r2 then
                               (case skip_ws r3 of
                                  [] \<Rightarrow> None
                                | c3 # r4 \<Rightarrow>
                                    if c3 = CHR '','' then
                                      map_option (\<lambda>(ms, r'). ((k, v) # ms, r')) (parse_members r4)
                                    else if c3 = CHR ''}'' then Some ([(k, v)], r4)
                                    else None)
                             else None)
                      else None))
          else None)"
  by pat_completeness auto
termination
proof (relation "measures [\<lambda>x. case x of Inl s \<Rightarrow> length s | Inr (Inl s) \<Rightarrow> length s | Inr (Inr s) \<Rightarrow> length s,
                           \<lambda>x. case x of Inl s \<Rightarrow> 0 | Inr y \<Rightarrow> 1]", goal_cases)
  have ws: "length cs < length s" if "skip_ws s = c # cs" for s c cs
  proof -
    have "length (skip_ws s) \<le> length s"
      by (simp add: skip_ws_def length_dropWhile_le)
    with that show ?thesis by simp
  qed
  have pc: "length r < length s" if "parse_chars s = Some (str, r)" for s str r
    using that
  proof (induction s arbitrary: str r rule: parse_chars.induct)
    case 1
    then show ?case by simp
  next
    case (2 c cs)
    then show ?case
      by (auto split: if_splits list.splits option.splits prod.splits) fastforce+
  qed
  {
    case 1
    then show ?case by simp
  next
    case (2 s c cs c' cs')
    then show ?case
      using ws [of s c cs] ws [of cs c' cs'] by simp
  next
    case (3 s c cs c' cs')
    then show ?case
      using ws [of s c cs] ws [of cs c' cs'] by simp
  next
    case (4 s)
    then show ?case by simp
  next
    case (5 s x v r c cs)
    then show ?case
      using ws [of r c cs] by simp
  next
    case (6 s c cs x k r c2 r2)
    then show ?case
      using ws [of s c cs] pc [of cs k r] ws [of r c2 r2] by simp
  next
    case (7 s c cs x k r c2 r2 y v r3 c3 r4)
    then show ?case
      using ws [of s c cs] pc [of cs k r] ws [of r c2 r2] ws [of r3 c3 r4] by simp
  }
qed

declare parse_value.simps [simp del] parse_elements.simps [simp del] parse_members.simps [simp del]

text \<open>\<^verbatim>\<open>JSON.parse\<close>: one value, then white space only; \<open>None\<close> is the \<^verbatim>\<open>SyntaxError\<close>.\<close>

definition JSON_parse :: "string \<Rightarrow> json option" where
  "JSON_parse text =
     (case parse_value text of
        None \<Rightarrow> None
      | Some (v, r) \<Rightarrow> if skip_ws r = [] then Some v else None)"

text \<open>
  \<^verbatim>\<open>JSON.stringify\<close> on an array of \<^verbatim>\<open>ImageData\<close>: a string is quoted with the escapes
  of the standard, the size is printed in decimal digits, the properties come in the
  order in which \<^verbatim>\<open>handleFileUpload\<close> creates them.
\<close>

definition hex_digit :: "nat \<Rightarrow> char" where
  "hex_digit n = (if n < 10 then char_of (48 + n) else char_of (87 + n))"

definition quote_unit :: "char \<Rightarrow> string" where
  "quote_unit c =
     (let n = (of_char c :: nat)
      in if n = 8 then [CHR 0x5C, CHR ''b'']
         else if n = 9 then [CHR 0x5C, CHR ''t'']
         else if n = 10 then [CHR 0x5C, CHR ''n'']
         else if n = 12 then [CHR 0x5C, CHR ''f'']
         else if n = 13 then [CHR 0x5C, CHR ''r'']
         else if n = 34 then [CHR 0x5C, CHR 0x22]
         else if n = 92 then [CHR 0x5C, CHR 0x5C]
         else if n < 32 then
           [CHR 0x5C, CHR ''u'', CHR ''0'', CHR ''0'', hex_digit (n div 16), hex_digit (n mod 16)]
         else [c])"

definition quote :: "string \<Rightarrow> string" where
  "quote s = CHR 0x22 # concat (map quote_unit s) @ [CHR 0x22]"

definition stringify_image :: "ImageData \<Rightarrow> string" where
  "stringify_image img =
     ''{'' @ quote ''id'' @ '':'' @ quote (image_id img) @
     '','' @ quote ''name'' @ '':'' @ quote (image_name img) @
     '','' @ quote ''originalName'' @ '':'' @ quote (originalName img) @
     '','' @ quote ''src'' @ '':'' @ quote (src img) @
     '','' @ quote ''size'' @ '':'' @ nat_toString (image_size img) @
     '','' @ quote ''type'' @ '':'' @ quote (image_type img) @
     '','' @ quote ''uploadDate'' @ '':'' @ quote (uploadDate img) @ ''}''"

fun join_commas :: "string list \<Rightarrow> string" where
  "join_commas [] = []"
| "join_commas [x] = x"
| "join_commas (x # y # zs) = x @ '','' @ join_commas (y # zs)"

definition JSON_stringify :: "ImageData list \<Rightarrow> string" where
  "JSON_stringify imgs = ''['' @ join_commas (map stringify_image imgs) @ '']''"

text \<open>
  Reading a parsed value at the type \<^verbatim>\<open>ImageData[]\<close> of the model: an array of objects
  with the seven properties, strings of code units below 256 and a natural number below
  \<open>2 ^ 53\<close> as size (the integers that a double holds exactly and that
  \<^verbatim>\<open>JSON.stringify\<close> prints in decimal digits). Any other value gives \<open>None\<close>. Of two
  members with one key the later counts, as in JavaScript; members with other keys are
  not part of the record.
\<close>

definition get_member :: "(nat list \<times> json) list \<Rightarrow> string \<Rightarrow> json option" where
  "get_member ms key = map_of (rev ms) (map of_char key)"

definition as_string :: "json option \<Rightarrow> string option" where
  "as_string v =
     (case v of
        Some (JString cs) \<Rightarrow> if list_all (\<lambda>u. u < 256) cs then Some (map char_of cs) else None
      | _ \<Rightarrow> None)"

definition as_size :: "json option \<Rightarrow> nat option" where
  "as_size v =
     (case v of
        Some (JNumber (Finite x)) \<Rightarrow>
          if 0 \<le> x \<and> of_int \<lfloor>x\<rfloor> = x \<and> x < 2 ^ 53 then Some (nat \<lfloor>x\<rfloor>) else None
      | _ \<Rightarrow> None)"

definition as_ImageData :: "json \<Rightarrow> ImageData option" where
  "as_ImageData v =
     (case v of
        JObject ms \<Rightarrow>
          Option.bind (as_string (get_member ms ''id'')) (\<lambda>i.
          Option.bind (as_string (get_member ms ''name'')) (\<lambda>n.
          Option.bind (as_string (get_member ms ''originalName'')) (\<lambda>orig.
          Option.bind (as_string (get_member ms ''src'')) (\<lambda>data.
          Option.bind (as_size (get_member ms ''size'')) (\<lambda>sz.
          Option.bind (as_string (get_member ms ''type'')) (\<lambda>t.
          Option.bind (as_string (get_member ms ''uploadDate'')) (\<lambda>d.
            Some \<lparr>image_id = i, image_name = n, originalName = orig, src = data,
                  image_size = sz, image_type = t, uploadDate = d\<rparr>)))))))
      | _ \<Rightarrow> None)"

definition as_images :: "json \<Rightarrow> ImageData list option" where
  "as_images v =
     (case v of
        JArray vs \<Rightarrow> those (map as_ImageData vs)
      | _ \<Rightarrow> None)"

section \<open>Persistence\<close>

text \<open>
  \<^verbatim>\<open>localStorage\<close>: the stored strings, and which writes the browser accepts; a write
  it does not accept throws \<^verbatim>\<open>QuotaExceededError\<close> and stores nothing.
\<close>

record storage =
  items :: "string \<Rightarrow> string option"
  accepts :: "string \<Rightarrow> string \<Rightarrow> bool"

definition getItem :: "storage \<Rightarrow> string \<Rightarrow> string option" where
  "getItem st key = items st key"

definition setItem :: "storage \<Rightarrow> string \<Rightarrow> string \<Rightarrow> js_error + storage" where
  "setItem st key v =
     (if accepts st key v then Inr (st\<lparr>items := (items st)(key \<mapsto> v)\<rparr>)
      else Inl QuotaExceededError)"

text \<open>
  The effect that runs on mount. An absent blob and the empty string are falsy and
  nothing is parsed. TypeScript checks nothing at run time: \<^verbatim>\<open>setImages\<close> is called
  with whatever \<^verbatim>\<open>JSON.parse\<close> returned. When that value is an \<^verbatim>\<open>ImageData[]\<close> of the
  model (see \<open>as_images\<close>) the result is \<open>Typed\<close> with the new state; otherwise it is
  \<open>Untyped v s\<close>: the gallery is the value \<open>v\<close>, the other cells of the state are those
  of \<open>s\<close>.
\<close>

datatype load_result = Typed app_state | Untyped json app_state

definition typed :: "load_result \<Rightarrow> app_state option" where
  "typed r = (case r of Typed s \<Rightarrow> Some s | Untyped v s \<Rightarrow> None)"

definition load_theme :: "storage \<Rightarrow> app_state \<Rightarrow> app_state" where
  "load_theme st s =
     (if getItem st ''theme-preference'' = Some ''dark'' then s\<lparr>isDarkMode := True\<rparr> else s)"

definition load_effect :: "storage \<Rightarrow> app_state \<Rightarrow> load_result" where
  "load_effect st s =
     (case getItem st ''gallery-images'' of
        None \<Rightarrow> Typed (load_theme st s)
      | Some savedImages \<Rightarrow>
          if savedImages = [] then Typed (load_theme st s)
          else
            (case JSON_parse savedImages of
               None \<Rightarrow>
                 Typed (load_theme st
                   ((console_error ''Error loading saved images:'' (Err SyntaxError) s)
                      \<lparr>images := []\<rparr>))
             | Some v \<Rightarrow>
                 (case as_images v of
                    Some parsedImages \<Rightarrow> Typed (load_theme st (s\<lparr>images := parsedImages\<rparr>))
                  | None \<Rightarrow> Untyped v (load_theme st s))))"

text \<open>
  The effect that runs after the first render and whenever \<^verbatim>\<open>images\<close> has changed.
  It writes the images of the render it belongs to: \<open>save_images\<close> takes them as an
  argument, \<open>save_effect\<close> is the effect of a render that shows the state itself.
\<close>

definition save_images :: "ImageData list \<Rightarrow> app_state \<Rightarrow> storage \<Rightarrow> app_state \<times> storage" where
  "save_images imgs s st =
     (case setItem st ''gallery-images'' (JSON_stringify imgs) of
        Inr st' \<Rightarrow> (s, st')
      | Inl error \<Rightarrow> (console_error ''Error saving images:'' (Err error) s, st))"

definition save_effect :: "app_state \<Rightarrow> storage \<Rightarrow> app_state \<times> storage" where
  "save_effect s st = save_images (images s) s st"



definition small_sizes :: "ImageData list \<Rightarrow> bool" where
  "small_sizes imgs = list_all (\<lambda>img. image_size img < 2 ^ 53) imgs"


text \<open>The value that \<open>JSON_parse\<close> reads back from the text of a record.\<close>

definition json_of :: "ImageData \<Rightarrow> json" where
  "json_of img =
     JObject
       [(map of_char ''id'', JString (map of_char (image_id img))),
        (map of_char ''name'', JString (map of_char (image_name img))),
        (map of_char ''originalName'', JString (map of_char (originalName img))),
        (map of_char ''src'', JString (map of_char (src img))),
        (map of_char ''size'', JNumber (string_to_number (of_nat (image_size img)))),
        (map of_char ''type'', JString (map of_char (image_type img))),
        (map of_char ''uploadDate'', JString (map of_char (uploadDate img)))]"


section \<open>Rounding to double\<close>

text \<open>
  \<open>binade\<close> finds the exponent of a positive rational, so \<open>round_double\<close> keeps 53
  significant bits: its relative error is at most \<open>1 / 2 ^ 53\<close>, and a number that has
  53 significant bits is returned as it is.
\<close>

lemma floorlog_bounds_rat:
  assumes "0 < (p::int)"
  shows "(2::rat) ^ floorlog 2 (nat p) \<le> 2 * of_int p"
    and "of_int p < (2::rat) ^ floorlog 2 (nat p)"
proof -
  define b where "b = floorlog 2 (nat p)"
  from assms have np: "0 < nat p" by simp
  from floorlog_bounds [OF np, of 2]
  have lo: "2 ^ (b - 1) \<le> nat p" and hi: "nat p < 2 ^ b"
    by (simp_all add: b_def)
  have "b \<noteq> 0"
    using np by (simp add: b_def floorlog_eq_zero_iff)
  then have "(2::nat) ^ b = 2 * 2 ^ (b - 1)"
    by (cases b) simp_all
  with lo have "(2::nat) ^ b \<le> 2 * nat p" by simp
  then have "int ((2::nat) ^ b) \<le> int (2 * nat p)"
    by (simp only: of_nat_le_iff)
  with assms have "(2::int) ^ b \<le> 2 * p" by simp
  then have "(of_int ((2::int) ^ b) :: rat) \<le> of_int (2 * p)"
    by (simp only: of_int_le_iff)
  then show "(2::rat) ^ floorlog 2 (nat p) \<le> 2 * of_int p"
    by (simp add: b_def)
  from hi have "int (nat p) < int (2 ^ b)"
    by (simp only: of_nat_less_iff)
  with assms have "p < (2::int) ^ b" by simp
  then have "(of_int p :: rat) < of_int ((2::int) ^ b)"
    by (simp only: of_int_less_iff)
  then show "of_int p < (2::rat) ^ floorlog 2 (nat p)"
    by (simp add: b_def)
qed

lemma binade_bounds:
  assumes "0 < x"
  shows "2 powi binade x \<le> x" and "x < 2 powi (binade x + 1)"
proof -
  obtain p q where pq: "quotient_of x = (p, q)"
    by (cases "quotient_of x")
  have q: "0 < q"
    using quotient_of_denom_pos [OF pq] .
  have x: "x = of_int p / of_int q"
    using quotient_of_div [OF pq] .
  have p: "0 < p"
    using assms q by (simp add: x zero_less_divide_iff)
  define P :: rat where "P = 2 ^ floorlog 2 (nat p)"
  define Q :: rat where "Q = 2 ^ floorlog 2 (nat q)"
  define d where "d = int (floorlog 2 (nat p)) - int (floorlog 2 (nat q))"
  have P: "P \<le> 2 * of_int p" "of_int p < P"
    using floorlog_bounds_rat [OF p] by (simp_all add: P_def)
  have Q: "Q \<le> 2 * of_int q" "of_int q < Q"
    using floorlog_bounds_rat [OF q] by (simp_all add: Q_def)
  have pos: "0 < P" "0 < Q"
    by (simp_all add: P_def Q_def)
  have d: "2 powi d = P / Q"
    by (simp add: d_def P_def Q_def power_int_diff)
  have d1: "2 powi (d + 1) = 2 * P / Q"
    by (simp add: power_int_add d)
  have d2: "2 powi (d - 1) = P / (2 * Q)"
    by (simp add: power_int_diff d)
  have b: "binade x = (if 2 powi d \<le> x then d else d - 1)"
    by (simp add: binade_def pq d_def Let_def)
  have lower: "P / (2 * Q) \<le> x"
  proof -
    have "P * of_int q \<le> (2 * of_int p) * Q"
      using P(1) Q(2) p q by (intro mult_mono) simp_all
    then show ?thesis
      using q pos by (simp add: x field_simps)
  qed
  have upper: "x < 2 * P / Q"
  proof -
    have "of_int p * Q < P * (2 * of_int q)"
      using P(2) Q(1) p q pos by (intro mult_less_le_imp_less) simp_all
    then show ?thesis
      using q pos by (simp add: x field_simps)
  qed
  show "2 powi binade x \<le> x"
    using lower by (simp add: b d2)
  show "x < 2 powi (binade x + 1)"
    using upper by (simp add: b d1 not_le)
qed

lemma binade_eqI:
  assumes "0 < x" "2 powi e \<le> x" "x < 2 powi (e + 1)"
  shows "binade x = e"
proof -
  from binade_bounds [OF assms(1)] assms(2,3)
  have a: "(2::rat) powi binade x < 2 powi (e + 1)" and b: "(2::rat) powi e < 2 powi (binade x + 1)"
    by simp_all
  have "binade x < e + 1"
  proof (rule ccontr)
    assume "\<not> binade x < e + 1"
    then have "(2::rat) powi (e + 1) \<le> 2 powi binade x"
      by (intro power_int_increasing) simp_all
    with a show False by simp
  qed
  moreover have "e < binade x + 1"
  proof (rule ccontr)
    assume "\<not> e < binade x + 1"
    then have "(2::rat) powi (binade x + 1) \<le> 2 powi e"
      by (intro power_int_increasing) simp_all
    with b show False by simp
  qed
  ultimately show ?thesis by simp
qed

lemma round_half_even_error: "\<bar>of_int (round_half_even m) - m\<bar> \<le> 1 / 2"
proof -
  have "of_int \<lfloor>m\<rfloor> \<le> m" "m < of_int \<lfloor>m\<rfloor> + 1"
    by linarith+
  then show ?thesis
    by (auto simp: round_half_even_def Let_def)
qed

lemma round_half_even_of_int: "round_half_even (of_int k) = k"
  by (simp add: round_half_even_def)

lemma round_double_pos:
  assumes "0 < x"
  shows "round_double x =
           of_int (round_half_even (x / 2 powi (binade x - 52))) * 2 powi (binade x - 52)"
  using assms by (simp add: round_double_def Let_def)

lemma round_double_error:
  assumes "0 < x"
  shows "\<bar>round_double x - x\<bar> \<le> x / 2 ^ 53"
proof -
  define u :: rat where "u = 2 powi (binade x - 52)"
  define n where "n = round_half_even (x / u)"
  have u: "0 < u" by (simp add: u_def)
  have "\<bar>of_int n - x / u\<bar> \<le> 1 / 2"
    unfolding n_def by (rule round_half_even_error)
  then have "\<bar>of_int n - x / u\<bar> * u \<le> 1 / 2 * u"
    using u by (intro mult_right_mono) simp_all
  moreover have "\<bar>of_int n - x / u\<bar> * u = \<bar>of_int n * u - x\<bar>"
  proof -
    have "\<bar>of_int n - x / u\<bar> * u = \<bar>(of_int n - x / u) * u\<bar>"
      using u by (simp add: abs_mult)
    also have "(of_int n - x / u) * u = of_int n * u - x"
      using u by (simp add: field_simps)
    finally show ?thesis .
  qed
  ultimately have e: "\<bar>of_int n * u - x\<bar> \<le> u / 2" by simp
  have "u = 2 powi binade x / 2 ^ 52"
    by (simp add: u_def power_int_diff)
  then have "u / 2 = 2 powi binade x / 2 ^ 53" by simp
  also have "\<dots> \<le> x / 2 ^ 53"
    using binade_bounds(1) [OF assms] by (simp add: divide_right_mono)
  finally have "u / 2 \<le> x / 2 ^ 53" .
  with e show ?thesis
    by (simp add: round_double_pos [OF assms] u_def [symmetric] n_def [symmetric])
qed

lemma round_double_exact:
  assumes "0 < x" "2 powi e \<le> x" "x < 2 powi (e + 1)" "x = of_int m * 2 powi (e - 52)"
  shows "round_double x = x"
proof -
  have b: "binade x = e"
    using assms(1-3) by (rule binade_eqI)
  have "x / 2 powi (e - 52) = of_int m"
    by (simp add: assms(4))
  then show ?thesis
    by (simp add: round_double_pos [OF assms(1)] b round_half_even_of_int assms(4) [symmetric])
qed

lemma round_double_1: "round_double 1 = 1"
  by (rule round_double_exact [where e = 0 and m = "2 ^ 52"]) simp_all

lemma round_double_100: "round_double 100 = 100"
  by (rule round_double_exact [where e = 6 and m = "100 * 2 ^ 46"]) simp_all


lemma round_double_between:
  assumes "0 < x"
  shows "x - x / 9007199254740992 \<le> round_double x"
    and "round_double x \<le> x + x / 9007199254740992"
proof -
  have "\<bar>round_double x - x\<bar> \<le> x / 9007199254740992"
    using round_double_error [OF assms] by simp
  then show "x - x / 9007199254740992 \<le> round_double x"
    and "round_double x \<le> x + x / 9007199254740992"
    by linarith+
qed

lemma round_double_gt_0:
  assumes "0 < x"
  shows "0 < round_double x"
  using round_double_between(1) [OF assms] assms by linarith

lemma round_double_nat_dyadic:
  assumes "0 < m" "m < 2 ^ 53"
  shows "round_double (of_nat m * 2 powi k) = of_nat m * 2 powi k"
proof -
  define b where "b = floorlog 2 m"
  have m: "0 < int m" using assms(1) by simp
  from floorlog_bounds_rat [OF m]
  have lo: "(2::rat) ^ b \<le> 2 * of_nat m" and hi: "(of_nat m :: rat) < 2 ^ b"
    by (simp_all add: b_def)
  have b0: "b \<noteq> 0"
    using assms(1) by (simp add: b_def floorlog_eq_zero_iff)
  have b53: "b \<le> 53"
    unfolding b_def using assms(2) by (intro floorlog_leI) simp_all
  define e where "e = int b - 1 + k"
  have pk: "(0::rat) < 2 powi k" by simp
  have pe: "(2::rat) powi e = 2 ^ b / 2 * 2 powi k"
    by (simp add: e_def power_int_add power_int_diff)
  have pe1: "(2::rat) powi (e + 1) = 2 ^ b * 2 powi k"
    by (simp add: e_def power_int_add)
  have x0: "(0::rat) < of_nat m * 2 powi k"
    using assms(1) by simp
  have l: "(2::rat) powi e \<le> of_nat m * 2 powi k"
    unfolding pe using lo pk by (intro mult_right_mono) simp_all
  have u: "of_nat m * 2 powi k < (2::rat) powi (e + 1)"
    unfolding pe1 using hi pk by (intro mult_strict_right_mono) simp_all
  have "(2::rat) powi (e - 52) = 2 powi k / 2 ^ (53 - b)"
  proof -
    have "e - 52 = k - int (53 - b)"
      using b53 by (simp add: e_def)
    then show ?thesis
      by (simp add: power_int_diff)
  qed
  then have r: "of_nat m * 2 powi k = of_int (int m * 2 ^ (53 - b)) * (2::rat) powi (e - 52)"
    by simp
  from x0 l u r show ?thesis
    by (rule round_double_exact)
qed

lemma js_div_1024:
  assumes "m < 2 ^ 53"
  shows "js_div (of_nat m * 2 powi k) 1024 = of_nat m * 2 powi (k - 10)"
proof (cases "m = 0")
  case True
  then show ?thesis by (simp add: js_div_def round_double_def)
next
  case False
  have "of_nat m * 2 powi k / 1024 = of_nat m * (2::rat) powi (k - 10)"
    by (simp add: power_int_diff)
  with False assms show ?thesis
    by (simp add: js_div_def round_double_nat_dyadic)
qed

lemma size_in_MB:
  assumes "n < 2 ^ 53"
  shows "js_div (js_div (of_nat n) 1024) 1024 = of_nat n / 1048576"
proof -
  have a: "js_div (of_nat n) 1024 = of_nat n / 1024"
    using js_div_1024 [OF assms, of 0] by (simp add: power_int_minus field_simps)
  have b: "js_div (of_nat n / 1024) 1024 = of_nat n / 1048576"
    using js_div_1024 [OF assms, of "- 10"] by (simp add: power_int_minus field_simps)
  show ?thesis
    unfolding a by (rule b)
qed

lemma binade_ge_0:
  assumes "1 \<le> x"
  shows "0 \<le> binade x"
proof (rule ccontr)
  assume "\<not> 0 \<le> binade x"
  then have "(2::rat) powi (binade x + 1) \<le> 2 powi 0"
    by (intro power_int_increasing) simp_all
  moreover have "x < 2 powi (binade x + 1)"
    using assms by (intro binade_bounds) simp
  ultimately show False using assms by simp
qed

lemma string_to_number_nat:
  assumes "n < 2 ^ 53"
  shows "string_to_number (of_nat n) = Finite (of_nat n)"
proof (cases "n = 0")
  case True
  then show ?thesis by (simp add: string_to_number_def)
next
  case False
  define x :: rat where "x = of_nat n"
  have x: "0 < x" "1 \<le> x" using False by (simp_all add: x_def)
  have m: "max (binade x) (- 1022) = binade x"
    using binade_ge_0 [OF x(2)] by simp
  have "round_double (of_nat n * 2 powi 0) = of_nat n * 2 powi 0"
    using False assms by (intro round_double_nat_dyadic) simp_all
  then have r: "of_int (round_half_even (x / 2 powi (binade x - 52))) * 2 powi (binade x - 52) = x"
    using round_double_pos [OF x(1)] by (simp add: x_def)
  have "(of_nat n :: rat) < of_nat (2 ^ 53)"
    using assms by (simp only: of_nat_less_iff)
  then have "x < 2 ^ 53" by (simp add: x_def)
  moreover have "(2::rat) ^ 53 \<le> 2 ^ 1024"
    by (intro power_increasing) simp_all
  ultimately have small: "\<not> 2 ^ 1024 \<le> x" by linarith
  have "string_to_number x = Finite x"
    unfolding string_to_number_def Let_def using x small by (simp add: m r)
  then show ?thesis by (simp add: x_def)
qed

section \<open>Characters and decimal digits\<close>

lemma char_eq_iff_nat: "c = d \<longleftrightarrow> (of_char c :: nat) = of_char d"
  by (simp add: of_char_eq_iff)

lemma of_char_lt_256: "(of_char c :: nat) < 256"
  by (rule of_char_mod_256 [where ?'a = nat, THEN subst]) simp

lemma digit_char_props:
  assumes "d < 10"
  shows "is_digit (digit_char d)" and "digit_val (digit_char d) = d"
    and "(of_char (digit_char d) :: nat) = 48 + d"
  using assms by (simp_all add: is_digit_def digit_val_def digit_char_def)

lemma nat_toString_small: "n < 10 \<Longrightarrow> nat_toString n = [digit_char n]"
  by (subst nat_toString.simps) simp

lemma nat_toString_big:
  "\<not> n < 10 \<Longrightarrow> nat_toString n = nat_toString (n div 10) @ [digit_char (n mod 10)]"
  by (subst nat_toString.simps) simp

lemma nat_toString_digits: "list_all is_digit (nat_toString n)"
proof (induction n rule: nat_toString.induct)
  case (1 n)
  show ?case
  proof (cases "n < 10")
    case True
    then show ?thesis by (simp add: nat_toString_small digit_char_props)
  next
    case False
    with 1 show ?thesis by (simp add: nat_toString_big digit_char_props)
  qed
qed

lemma nat_toString_not_Nil: "nat_toString n \<noteq> []"
  by (cases "n < 10") (simp_all add: nat_toString_small nat_toString_big)

lemma digits_val_Nil: "digits_val [] = 0"
  by (simp add: digits_val_def)

lemma digits_val_snoc: "digits_val (ds @ [d]) = 10 * digits_val ds + digit_val d"
  by (simp add: digits_val_def)

lemma digits_val_nat_toString: "digits_val (nat_toString n) = n"
proof (induction n rule: nat_toString.induct)
  case (1 n)
  show ?case
  proof (cases "n < 10")
    case True
    then show ?thesis by (simp add: nat_toString_small digits_val_def digit_char_props)
  next
    case False
    with 1 show ?thesis by (simp add: nat_toString_big digits_val_snoc digit_char_props)
  qed
qed

lemma nat_toString_hd: "0 < n \<Longrightarrow> hd (nat_toString n) \<noteq> CHR ''0''"
proof (induction n rule: nat_toString.induct)
  case (1 n)
  show ?case
  proof (cases "n < 10")
    case True
    with 1(2) show ?thesis
      by (simp add: nat_toString_small char_eq_iff_nat digit_char_props)
  next
    case False
    then have "0 < n div 10" by simp
    with 1(1) False show ?thesis
      by (simp add: nat_toString_big nat_toString_not_Nil)
  qed
qed

lemma nat_toString_0: "nat_toString 0 = ''0''"
  by (simp add: nat_toString_small digit_char_def char_eq_iff_nat)

lemma nat_toString_leading:
  "\<not> (hd (nat_toString n) = CHR ''0'' \<and> 1 < length (nat_toString n))"
  by (cases "n = 0") (simp_all add: nat_toString_0 nat_toString_hd)

section \<open>Validation\<close>

lemma toFixed2_11: "toFixed2 11 = ''11.00''"
proof -
  have "\<lfloor>(11::rat) * 100 + 1 / 2\<rfloor> = 1100"
    by (rule floor_unique) simp_all
  then show ?thesis
    by (simp add: toFixed2_def Let_def nat_toString_big nat_toString_small digit_char_def
        char_eq_iff_nat)
qed

lemma validTypes_set:
  "set validTypes = {''image/jpeg'', ''image/jpg'', ''image/png'', ''image/gif'', ''image/webp''}"
  by (simp add: validTypes_def)

text \<open>
  Claim C2, amended. \<open>validateFile\<close> accepts a file if and only if its type is one of
  the five accepted strings and its size is at most 10485760 bytes. A file whose type is
  outside the set is rejected with the invalid-type message carrying the type, whatever
  its size; a file whose type is accepted and whose size exceeds 10485760 bytes is
  rejected with the too-large message carrying the size in MB with two decimals: the
  two divisions by 1024 are exact for a size below \<open>2 ^ 53\<close>, so the number printed is
  the size divided by 1048576, rounded to the nearest hundredth.
\<close>

theorem C2_validateFile:
  "(validateFile file = Inr True \<longleftrightarrow>
      file_type file \<in> {''image/jpeg'', ''image/jpg'', ''image/png'', ''image/gif'', ''image/webp''}
      \<and> file_size file \<le> 10485760)
   \<and> (file_type file \<notin> {''image/jpeg'', ''image/jpg'', ''image/png'', ''image/gif'', ''image/webp''} \<longrightarrow>
        validateFile file =
          Inl (Error (''Invalid file type: '' @ file_type file @ ''. Please upload images only.'')))
   \<and> (file_type file \<in> {''image/jpeg'', ''image/jpg'', ''image/png'', ''image/gif'', ''image/webp''}
        \<and> 10485760 < file_size file \<longrightarrow>
        validateFile file =
          Inl (Error (''File too large: '' @
                      toFixed2 (js_div (js_div (of_nat (file_size file)) 1024) 1024) @
                      ''MB. Maximum size is 10MB.'')))
   \<and> (file_size file < 2 ^ 53 \<longrightarrow>
        js_div (js_div (of_nat (file_size file)) 1024) 1024 = of_nat (file_size file) / 1048576)"
  unfolding validateFile_def validTypes_set maxSize_def by (auto simp: size_in_MB)

theorem C2_validateFile_witness:
  "validateFile \<lparr>file_name = ''a.png'', file_size = 10485760, file_type = ''image/png''\<rparr> = Inr True
   \<and> validateFile \<lparr>file_name = ''b.exe'', file_size = 1048576, file_type = ''application/exe''\<rparr> =
       Inl (Error ''Invalid file type: application/exe. Please upload images only.'')
   \<and> validateFile \<lparr>file_name = ''c.jpg'', file_size = 11534336, file_type = ''image/jpeg''\<rparr> =
       Inl (Error ''File too large: 11.00MB. Maximum size is 10MB.'')"
  using C2_validateFile [of "\<lparr>file_name = ''a.png'', file_size = 10485760, file_type = ''image/png''\<rparr>"]
    C2_validateFile [of "\<lparr>file_name = ''b.exe'', file_size = 1048576, file_type = ''application/exe''\<rparr>"]
    C2_validateFile [of "\<lparr>file_name = ''c.jpg'', file_size = 11534336, file_type = ''image/jpeg''\<rparr>"]
    toFixed2_11
  by simp

text \<open>
  Claim C2 as stated fails: a file of 11534336 bytes, more than 10485760, whose type is
  not accepted is rejected for its type, not for its size.
\<close>

theorem C2_validateFile_counterexample:
  "10485760 < file_size \<lparr>file_name = ''b.exe'', file_size = 11534336, file_type = ''application/exe''\<rparr>
   \<and> validateFile \<lparr>file_name = ''b.exe'', file_size = 11534336, file_type = ''application/exe''\<rparr>
       = Inl (Error ''Invalid file type: application/exe. Please upload images only.'')"
  by (simp add: validateFile_def validTypes_def)

section \<open>Deleting\<close>

text \<open>
  Claim C7. \<open>deleteImage\<close> keeps a sub-sequence of the gallery, made of the records
  whose id differs from the given one; when no record has the id the gallery is
  returned as it is, and when one record has it, that record alone is removed.
\<close>

theorem C7_deleteImage:
  "subseq (deleteImage imageId prev) prev
   \<and> set (deleteImage imageId prev) = {img \<in> set prev. image_id img \<noteq> imageId}
   \<and> (imageId \<notin> image_id ` set prev \<longrightarrow> deleteImage imageId prev = prev)
   \<and> (\<forall>xs r ys. prev = xs @ r # ys \<and> image_id r = imageId
          \<and> imageId \<notin> image_id ` set xs \<and> imageId \<notin> image_id ` set ys
        \<longrightarrow> deleteImage imageId prev = xs @ ys)"
proof -
  have one: "filter (\<lambda>img. image_id img \<noteq> imageId) zs = zs"
    if "imageId \<notin> image_id ` set zs" for zs
    using that by (induction zs) auto
  show ?thesis
    unfolding deleteImage_def by (auto simp: one)
qed

theorem C7_deleteImage_witness:
  "deleteImage ''2''
     [\<lparr>image_id = ''1'', image_name = ''a'', originalName = ''a.png'', src = ''x'', image_size = 1,
        image_type = ''image/png'', uploadDate = ''d''\<rparr>,
      \<lparr>image_id = ''2'', image_name = ''b'', originalName = ''b.png'', src = ''y'', image_size = 2,
        image_type = ''image/png'', uploadDate = ''e''\<rparr>,
      \<lparr>image_id = ''3'', image_name = ''c'', originalName = ''c.png'', src = ''z'', image_size = 3,
        image_type = ''image/png'', uploadDate = ''f''\<rparr>]
   = [\<lparr>image_id = ''1'', image_name = ''a'', originalName = ''a.png'', src = ''x'', image_size = 1,
        image_type = ''image/png'', uploadDate = ''d''\<rparr>,
      \<lparr>image_id = ''3'', image_name = ''c'', originalName = ''c.png'', src = ''z'', image_size = 3,
        image_type = ''image/png'', uploadDate = ''f''\<rparr>]
   \<and> deleteImage ''4''
     [\<lparr>image_id = ''1'', image_name = ''a'', originalName = ''a.png'', src = ''x'', image_size = 1,
        image_type = ''image/png'', uploadDate = ''d''\<rparr>]
   = [\<lparr>image_id = ''1'', image_name = ''a'', originalName = ''a.png'', src = ''x'', image_size = 1,
        image_type = ''image/png'', uploadDate = ''d''\<rparr>]"
proof -
  let ?r1 = "\<lparr>image_id = ''1'', image_name = ''a'', originalName = ''a.png'', src = ''x'',
               image_size = 1, image_type = ''image/png'', uploadDate = ''d''\<rparr>"
  let ?r2 = "\<lparr>image_id = ''2'', image_name = ''b'', originalName = ''b.png'', src = ''y'',
               image_size = 2, image_type = ''image/png'', uploadDate = ''e''\<rparr>"
  let ?r3 = "\<lparr>image_id = ''3'', image_name = ''c'', originalName = ''c.png'', src = ''z'',
               image_size = 3, image_type = ''image/png'', uploadDate = ''f''\<rparr>"
  from C7_deleteImage [of "''2''" "[?r1, ?r2, ?r3]"]
  have "\<forall>xs r ys. [?r1, ?r2, ?r3] = xs @ r # ys \<and> image_id r = ''2''
          \<and> ''2'' \<notin> image_id ` set xs \<and> ''2'' \<notin> image_id ` set ys
        \<longrightarrow> deleteImage ''2'' [?r1, ?r2, ?r3] = xs @ ys"
    by blast
  then have "[?r1, ?r2, ?r3] = [?r1] @ ?r2 # [?r3] \<and> image_id ?r2 = ''2''
          \<and> ''2'' \<notin> image_id ` set [?r1] \<and> ''2'' \<notin> image_id ` set [?r3]
        \<longrightarrow> deleteImage ''2'' [?r1, ?r2, ?r3] = [?r1] @ [?r3]"
    by blast
  then have a: "deleteImage ''2'' [?r1, ?r2, ?r3] = [?r1, ?r3]"
    by simp
  from C7_deleteImage [of "''4''" "[?r1]"]
  have b: "deleteImage ''4'' [?r1] = [?r1]"
    by simp
  from a b show ?thesis by simp
qed

section \<open>Searching\<close>




section \<open>The two loops of the upload\<close>

lemma validateFile_cases:
  "validateFile f = Inr True \<or> (\<exists>m. validateFile f = Inl (Error m))"
  by (simp add: validateFile_def)

lemma validate_loop_fst:
  "fst (validate_loop files (vf, s)) = vf @ filter (\<lambda>f. validateFile f = Inr True) files"
proof (induction files arbitrary: vf s)
  case Nil
  then show ?case by simp
next
  case (Cons f files)
  from validateFile_cases [of f] show ?case
    by (auto simp: Cons.IH)
qed

lemma validate_loop_snd:
  "snd (validate_loop files (vf, s)) =
     s\<lparr>console := console s @
         concat (map (\<lambda>f. case validateFile f of
                            Inr ok \<Rightarrow> []
                          | Inl error \<Rightarrow>
                              [(''File validation failed for '' @ file_name f @ '':'',
                                error_message error)]) files)\<rparr>"
proof (induction files arbitrary: vf s)
  case Nil
  then show ?case by simp
next
  case (Cons f files)
  show ?case
    by (cases "validateFile f") (simp_all add: Cons.IH console_error_def)
qed

lemma process_loop_done:
  "length vf \<le> i \<Longrightarrow> process_loop env vf i (acc, s) = (acc, s)"
  by (subst process_loop.simps) simp

lemma process_loop_Inr:
  "i < length vf \<Longrightarrow> fileToBase64 env (vf ! i) = Inr d \<Longrightarrow>
   process_loop env vf i (acc, s) =
     process_loop env vf (Suc i)
       (acc @ [makeImageData env i (vf ! i) d], setUploadProgress (progress_at i (length vf)) s)"
  by (subst process_loop.simps) simp

lemma process_loop_Inl:
  "i < length vf \<Longrightarrow> fileToBase64 env (vf ! i) = Inl e \<Longrightarrow>
   process_loop env vf i (acc, s) =
     process_loop env vf (Suc i)
       (acc, console_error (''Error processing '' @ file_name (vf ! i) @ '':'') (Err e) s)"
  by (subst process_loop.simps) simp

lemma process_loop_fst:
  "fst (process_loop env vf i (acc, s)) =
     acc @ concat (map (\<lambda>j. case fileToBase64 env (vf ! j) of
                               Inr d \<Rightarrow> [makeImageData env j (vf ! j) d]
                             | Inl e \<Rightarrow> []) [i..<length vf])"
proof (induction "length vf - i" arbitrary: i acc s)
  case 0
  then show ?case by (simp add: process_loop_done)
next
  case (Suc n)
  then have lt: "i < length vf" and n: "n = length vf - Suc i" by simp_all
  show ?case
  proof (cases "fileToBase64 env (vf ! i)")
    case (Inl e)
    with lt Suc.hyps(1) [OF n] show ?thesis
      by (simp add: process_loop_Inl upt_conv_Cons)
  next
    case (Inr d)
    with lt Suc.hyps(1) [OF n] show ?thesis
      by (simp add: process_loop_Inr upt_conv_Cons)
  qed
qed

lemma process_loop_images:
  "images (snd (process_loop env vf i (acc, s))) = images s"
proof (induction "length vf - i" arbitrary: i acc s)
  case 0
  then show ?case by (simp add: process_loop_done)
next
  case (Suc n)
  then have lt: "i < length vf" and n: "n = length vf - Suc i" by simp_all
  show ?case
  proof (cases "fileToBase64 env (vf ! i)")
    case (Inl e)
    with lt Suc.hyps(1) [OF n] show ?thesis
      by (simp add: process_loop_Inl console_error_def)
  next
    case (Inr d)
    with lt Suc.hyps(1) [OF n] show ?thesis
      by (simp add: process_loop_Inr setUploadProgress_def)
  qed
qed

lemma process_loop_reports:
  "progressReports (snd (process_loop env vf i (acc, s))) =
     progressReports s @
     concat (map (\<lambda>j. case fileToBase64 env (vf ! j) of
                         Inr d \<Rightarrow> [progress_at j (length vf)]
                       | Inl e \<Rightarrow> []) [i..<length vf])"
proof (induction "length vf - i" arbitrary: i acc s)
  case 0
  then show ?case by (simp add: process_loop_done)
next
  case (Suc n)
  then have lt: "i < length vf" and n: "n = length vf - Suc i" by simp_all
  show ?case
  proof (cases "fileToBase64 env (vf ! i)")
    case (Inl e)
    with lt Suc.hyps(1) [OF n] show ?thesis
      by (simp add: process_loop_Inl console_error_def upt_conv_Cons)
  next
    case (Inr d)
    with lt Suc.hyps(1) [OF n] show ?thesis
      by (simp add: process_loop_Inr setUploadProgress_def upt_conv_Cons)
  qed
qed


lemma upload_try_images:
  "images (snd (upload_try env files s)) =
     images s @
     concat (map (\<lambda>j. case fileToBase64 env (filter (\<lambda>f. validateFile f = Inr True) files ! j) of
                         Inr d \<Rightarrow> [makeImageData env j (filter (\<lambda>f. validateFile f = Inr True) files ! j) d]
                       | Inl e \<Rightarrow> [])
                 [0..<length (filter (\<lambda>f. validateFile f = Inr True) files)])"
proof -
  define VF where "VF = filter (\<lambda>f. validateFile f = Inr True) files"
  define s1 where "s1 = snd (validate_loop files ([], s))"
  have v: "validate_loop files ([], s) = (VF, s1)"
    using validate_loop_fst [of files "[]" s] by (simp add: VF_def s1_def prod_eq_iff)
  have i1: "images s1 = images s"
    by (simp add: s1_def validate_loop_snd)
  obtain new s2 where p: "process_loop env VF 0 ([], s1) = (new, s2)"
    by (cases "process_loop env VF 0 ([], s1)")
  have new: "new = concat (map (\<lambda>j. case fileToBase64 env (VF ! j) of
                         Inr d \<Rightarrow> [makeImageData env j (VF ! j) d]
                       | Inl e \<Rightarrow> []) [0..<length VF])"
    using process_loop_fst [of env VF 0 "[]" s1] by (simp add: p)
  have i2: "images s2 = images s1"
    using process_loop_images [of env VF 0 "[]" s1] by (simp add: p)
  show ?thesis
    unfolding VF_def [symmetric]
    by (cases "VF = []") (simp_all add: upload_try_def v p i1 i2 new [symmetric])
qed

lemma handleFileUpload_images:
  "images (handleFileUpload env (Some files) s) =
     images (snd (upload_try env files (setUploadProgress 0 (s\<lparr>uploading := True\<rparr>))))"
  if "files \<noteq> []"
  using that
  by (simp add: handleFileUpload_def Let_def setUploadProgress_def console_error_def
      split: prod.splits option.splits)

lemma upload_try_reports:
  "progressReports (snd (upload_try env files s)) =
     progressReports s @
     concat (map (\<lambda>j. case fileToBase64 env (filter (\<lambda>f. validateFile f = Inr True) files ! j) of
                         Inr d \<Rightarrow> [progress_at j (length (filter (\<lambda>f. validateFile f = Inr True) files))]
                       | Inl e \<Rightarrow> [])
                 [0..<length (filter (\<lambda>f. validateFile f = Inr True) files)])"
proof -
  define VF where "VF = filter (\<lambda>f. validateFile f = Inr True) files"
  define s1 where "s1 = snd (validate_loop files ([], s))"
  have v: "validate_loop files ([], s) = (VF, s1)"
    using validate_loop_fst [of files "[]" s] by (simp add: VF_def s1_def prod_eq_iff)
  have r1: "progressReports s1 = progressReports s"
    by (simp add: s1_def validate_loop_snd)
  obtain new s2 where p: "process_loop env VF 0 ([], s1) = (new, s2)"
    by (cases "process_loop env VF 0 ([], s1)")
  have r2: "progressReports s2 = progressReports s1 @
     concat (map (\<lambda>j. case fileToBase64 env (VF ! j) of
                         Inr d \<Rightarrow> [progress_at j (length VF)]
                       | Inl e \<Rightarrow> []) [0..<length VF])"
    using process_loop_reports [of env VF 0 "[]" s1] by (simp add: p)
  show ?thesis
    unfolding VF_def [symmetric]
    by (cases "VF = []") (simp_all add: upload_try_def v p r1 r2)
qed

lemma handleFileUpload_reports:
  "progressReports (handleFileUpload env (Some files) s) =
     progressReports (snd (upload_try env files (setUploadProgress 0 (s\<lparr>uploading := True\<rparr>)))) @ [0]"
  if "files \<noteq> []"
  using that
  by (simp add: handleFileUpload_def Let_def setUploadProgress_def console_error_def
      split: prod.splits option.splits)

section \<open>The progress values\<close>

lemma progress_at_between:
  assumes "0 < n"
  shows "0 < progress_at i n"
    and "\<bar>progress_at i n - 100 * (of_nat (i + 1) / of_nat n)\<bar>
           \<le> (of_nat (i + 1) / of_nat n) / 2 ^ 44"
proof -
  define a :: rat where "a = of_nat (i + 1) / of_nat n"
  define A where "A = round_double a"
  define p where "p = round_double (A * 100)"
  have a: "0 < a" using assms by (simp add: a_def)
  have A: "0 < A" unfolding A_def using a by (rule round_double_gt_0)
  have p: "progress_at i n = p"
    by (simp add: progress_at_def js_mul_def js_div_def A_def a_def p_def)
  have A100: "0 < A * 100" using A by simp
  show "0 < progress_at i n"
    unfolding p p_def using A100 by (rule round_double_gt_0)
  have "\<bar>p - 100 * a\<bar> \<le> a / 17592186044416"
    using round_double_between [OF a] round_double_between [OF A100] a
    unfolding p_def [symmetric] A_def [symmetric] by linarith
  then show "\<bar>progress_at i n - 100 * (of_nat (i + 1) / of_nat n)\<bar>
           \<le> (of_nat (i + 1) / of_nat n) / 2 ^ 44"
    unfolding p a_def by simp
qed

lemma progress_at_strict:
  assumes "i < j" "j < n" "n < 2 ^ 32"
  shows "progress_at i n < progress_at j n"
proof -
  define a :: rat where "a = of_nat (i + 1) / of_nat n"
  define b :: rat where "b = of_nat (j + 1) / of_nat n"
  define A where "A = round_double a"
  define B where "B = round_double b"
  define p where "p = round_double (A * 100)"
  define q where "q = round_double (B * 100)"
  from assms have n: "0 < n" by simp
  have a: "0 < a" using n by (simp add: a_def)
  have b: "0 < b" using n by (simp add: b_def)
  have b1: "b \<le> 1" using assms n by (simp add: b_def)
  have "(of_nat n :: rat) < of_nat (2 ^ 32)"
    using assms(3) by (simp only: of_nat_less_iff)
  then have "(of_nat n :: rat) < 4294967296" by simp
  then have "1 / 4294967296 < 1 / (of_nat n :: rat)"
    using n by (simp add: field_simps)
  moreover have "a + 1 / of_nat n \<le> b"
  proof -
    have "a + 1 / of_nat n = of_nat (i + 2) / of_nat n"
      by (simp add: a_def add_divide_distrib)
    also have "\<dots> \<le> of_nat (j + 1) / of_nat n"
      using assms(1) by (intro divide_right_mono) (simp_all del: of_nat_add of_nat_Suc)
    finally show ?thesis by (simp add: b_def)
  qed
  ultimately have gap: "a + 1 / 4294967296 < b" by simp
  have A: "0 < A" unfolding A_def using a by (rule round_double_gt_0)
  have B: "0 < B" unfolding B_def using b by (rule round_double_gt_0)
  have A100: "0 < A * 100" using A by simp
  have B100: "0 < B * 100" using B by simp
  have pa: "progress_at i n = p"
    by (simp add: progress_at_def js_mul_def js_div_def A_def a_def p_def)
  have pb: "progress_at j n = q"
    by (simp add: progress_at_def js_mul_def js_div_def B_def b_def q_def)
  have "p < q"
    using round_double_between(2) [OF a] round_double_between(1) [OF b]
      round_double_between(2) [OF A100] round_double_between(1) [OF B100] gap a b1
    unfolding p_def [symmetric] q_def [symmetric] A_def [symmetric] B_def [symmetric]
    by linarith
  then show ?thesis by (simp add: pa pb)
qed

lemma progress_at_last:
  assumes "0 < n"
  shows "progress_at (n - 1) n = 100"
proof -
  from assms have "(of_nat (n - 1 + 1) :: rat) / of_nat n = 1" by simp
  then show ?thesis
    by (simp add: progress_at_def js_mul_def js_div_def round_double_1 round_double_100
        del: of_nat_add of_nat_Suc)
qed

lemma progress_at_le_100:
  assumes "i < n" "n < 2 ^ 32"
  shows "progress_at i n \<le> 100"
proof (cases "i = n - 1")
  case True
  then show ?thesis
    using progress_at_last [of n] assms by simp
next
  case False
  with assms have "i < n - 1" "n - 1 < n" by simp_all
  from progress_at_strict [OF this assms(2)] progress_at_last [of n] assms show ?thesis
    by simp
qed

lemma progress_at_sorted:
  assumes "n < 2 ^ 32"
  shows "sorted_wrt (<) (map (\<lambda>i. progress_at i n) [0..<n])"
  using progress_at_strict [OF _ _ assms]
  by (simp add: sorted_wrt_map sorted_wrt_iff_nth_less)

lemma progress_at_0_2: "progress_at 0 2 = 50"
proof -
  have h: "round_double (1 / 2) = 1 / 2"
    by (rule round_double_exact [where e = "- 1" and m = "2 ^ 52"]) simp_all
  have f: "round_double 50 = 50"
    by (rule round_double_exact [where e = 5 and m = "50 * 2 ^ 47"]) simp_all
  show ?thesis
    by (simp add: progress_at_def js_mul_def js_div_def h f)
qed

lemma progress_at_1_2: "progress_at 1 2 = 100"
  using progress_at_last [of 2] by simp

section \<open>The upload as a whole\<close>

text \<open>
  Claim C1. When the encoding of every valid file succeeds, the upload appends to the
  gallery one record for each valid file, in the order of the valid files in the batch,
  and nothing else: \<open>K\<close> records for \<open>K\<close> valid files.
\<close>

theorem C1_handleFileUpload_appends:
  assumes "\<forall>f \<in> set files. validateFile f = Inr True \<longrightarrow> (\<exists>d. fileToBase64 env f = Inr d)"
  shows "images (handleFileUpload env (Some files) s) =
           images s @
           map (\<lambda>j. makeImageData env j (filter (\<lambda>f. validateFile f = Inr True) files ! j)
                      (projr (fileToBase64 env (filter (\<lambda>f. validateFile f = Inr True) files ! j))))
               [0..<length (filter (\<lambda>f. validateFile f = Inr True) files)]
         \<and> length (images (handleFileUpload env (Some files) s)) =
             length (images s) + length (filter (\<lambda>f. validateFile f = Inr True) files)
         \<and> map originalName (drop (length (images s)) (images (handleFileUpload env (Some files) s))) =
             map file_name (filter (\<lambda>f. validateFile f = Inr True) files)"
proof -
  define VF where "VF = filter (\<lambda>f. validateFile f = Inr True) files"
  define g where "g = (\<lambda>j. makeImageData env j (VF ! j) (projr (fileToBase64 env (VF ! j))))"
  have ok: "\<exists>d. fileToBase64 env (VF ! j) = Inr d" if "j < length VF" for j
  proof -
    from that have "VF ! j \<in> set VF" by simp
    then have "VF ! j \<in> set files" "validateFile (VF ! j) = Inr True"
      by (simp_all add: VF_def)
    with assms show ?thesis by blast
  qed
  have "concat (map (\<lambda>j. case fileToBase64 env (VF ! j) of
                         Inr d \<Rightarrow> [makeImageData env j (VF ! j) d]
                       | Inl e \<Rightarrow> []) [0..<length VF]) = concat (map (\<lambda>j. [g j]) [0..<length VF])"
  proof (rule arg_cong [where f = concat], rule map_cong)
    fix j assume "j \<in> set [0..<length VF]"
    then have "j < length VF" by simp
    from ok [OF this] obtain d where "fileToBase64 env (VF ! j) = Inr d" ..
    then show "(case fileToBase64 env (VF ! j) of
                         Inr d \<Rightarrow> [makeImageData env j (VF ! j) d]
                       | Inl e \<Rightarrow> []) = [g j]"
      by (simp add: g_def)
  qed simp
  also have "\<dots> = map g [0..<length VF]"
    by (simp add: concat_map_singleton)
  finally have c: "concat (map (\<lambda>j. case fileToBase64 env (VF ! j) of
                         Inr d \<Rightarrow> [makeImageData env j (VF ! j) d]
                       | Inl e \<Rightarrow> []) [0..<length VF]) = map g [0..<length VF]" .
  have main: "images (handleFileUpload env (Some files) s) = images s @ map g [0..<length VF]"
  proof (cases "files = []")
    case True
    then show ?thesis by (simp add: handleFileUpload_def VF_def)
  next
    case False
    then show ?thesis
      using upload_try_images [of env files "setUploadProgress 0 (s\<lparr>uploading := True\<rparr>)",
          folded VF_def] c
      by (simp add: handleFileUpload_images setUploadProgress_def)
  qed
  have names: "map originalName (map g [0..<length VF]) = map file_name VF"
    by (rule nth_equalityI) (simp_all add: g_def makeImageData_def)
  from main names show ?thesis
    unfolding VF_def g_def by simp
qed

theorem C1_handleFileUpload_appends_witness:
  "map originalName (images (handleFileUpload
     \<lparr>readAsDataURL = (\<lambda>f. Loaded ''data:image/png;base64,AAAA''), date_now = (\<lambda>i. 0),
      random_suffix = (\<lambda>i. []), date_iso = (\<lambda>i. [])\<rparr>
     (Some [\<lparr>file_name = ''a.png'', file_size = 2097152, file_type = ''image/png''\<rparr>,
            \<lparr>file_name = ''b.exe'', file_size = 1048576, file_type = ''application/exe''\<rparr>,
            \<lparr>file_name = ''c.gif'', file_size = 5, file_type = ''image/gif''\<rparr>])
     initial_state)) = [''a.png'', ''c.gif'']"
proof -
  let ?env = "\<lparr>readAsDataURL = (\<lambda>f. Loaded ''data:image/png;base64,AAAA''), date_now = (\<lambda>i. 0),
      random_suffix = (\<lambda>i. []), date_iso = (\<lambda>i. [])\<rparr>"
  let ?a = "\<lparr>file_name = ''a.png'', file_size = 2097152, file_type = ''image/png''\<rparr>"
  let ?b = "\<lparr>file_name = ''b.exe'', file_size = 1048576, file_type = ''application/exe''\<rparr>"
  let ?c = "\<lparr>file_name = ''c.gif'', file_size = 5, file_type = ''image/gif''\<rparr>"
  have h: "\<forall>f \<in> set [?a, ?b, ?c]. validateFile f = Inr True \<longrightarrow> (\<exists>d. fileToBase64 ?env f = Inr d)"
    by (simp add: fileToBase64_def)
  have v: "filter (\<lambda>f. validateFile f = Inr True) [?a, ?b, ?c] = [?a, ?c]"
    by (simp add: validateFile_def validTypes_def maxSize_def)
  have i: "images initial_state = []"
    by (simp add: initial_state_def)
  from C1_handleFileUpload_appends [OF h, of initial_state, unfolded v i, THEN conjunct2, THEN conjunct2]
  show ?thesis by simp
qed

text \<open>
  Claim C10. With the null file list or an empty one the upload returns the state it
  was given: gallery, progress, uploading flag and everything else.
\<close>

theorem C10_handleFileUpload_no_files:
  "handleFileUpload env None s = s \<and> handleFileUpload env (Some []) s = s"
  by (simp add: handleFileUpload_def)

theorem C10_handleFileUpload_no_files_witness:
  "handleFileUpload
     \<lparr>readAsDataURL = (\<lambda>f. Failed), date_now = (\<lambda>i. 0), random_suffix = (\<lambda>i. []),
      date_iso = (\<lambda>i. [])\<rparr> None initial_state = initial_state
   \<and> handleFileUpload
     \<lparr>readAsDataURL = (\<lambda>f. Failed), date_now = (\<lambda>i. 0), random_suffix = (\<lambda>i. []),
      date_iso = (\<lambda>i. [])\<rparr> (Some []) initial_state = initial_state"
  using C10_handleFileUpload_no_files
    [of "\<lparr>readAsDataURL = (\<lambda>f. Failed), date_now = (\<lambda>i. 0), random_suffix = (\<lambda>i. []),
      date_iso = (\<lambda>i. [])\<rparr>" initial_state]
  by simp

text \<open>
  Claim C3. When every file of the batch fails validation, the gallery is unchanged.
  For a batch that is not empty the body of the upload throws the error
  \<^verbatim>\<open>No valid image files to upload\<close>; the call catches and logs it and completes with
  the upload state reset.
\<close>

theorem C3_handleFileUpload_no_valid_files:
  assumes "\<forall>f \<in> set files. validateFile f \<noteq> Inr True"
  shows "images (handleFileUpload env (Some files) s) = images s
         \<and> (files \<noteq> [] \<longrightarrow>
              fst (upload_try env files (setUploadProgress 0 (s\<lparr>uploading := True\<rparr>))) =
                Some (Error ''No valid image files to upload'')
              \<and> handleFileUpload env (Some files) s =
                s\<lparr>uploading := False, uploadProgress := 0, previewFiles := [],
                  fileInputValue := map_option (\<lambda>v. []) (fileInputValue s),
                  console := console s @
                    concat (map (\<lambda>f. case validateFile f of
                            Inr ok \<Rightarrow> []
                          | Inl error \<Rightarrow>
                              [(''File validation failed for '' @ file_name f @ '':'',
                                error_message error)]) files) @
                    [(''Upload error:'', Err (Error ''No valid image files to upload''))],
                  progressReports := progressReports s @ [0, 0]\<rparr>)"
proof -
  have VF: "filter (\<lambda>f. validateFile f = Inr True) files = []"
    using assms by (simp add: filter_empty_conv)
  have v: "validate_loop files ([], s0) = ([], snd (validate_loop files ([], s0)))" for s0
    using validate_loop_fst [of files "[]" s0] by (simp add: VF prod_eq_iff)
  have t: "upload_try env files s0 =
             (Some (Error ''No valid image files to upload''), snd (validate_loop files ([], s0)))" for s0
    by (subst upload_try_def, subst v) simp
  have a: "images (handleFileUpload env (Some files) s) = images s"
    by (cases "files = []")
      (simp_all add: handleFileUpload_def t validate_loop_snd setUploadProgress_def console_error_def
        Let_def split: option.splits)
  have b: "handleFileUpload env (Some files) s =
                s\<lparr>uploading := False, uploadProgress := 0, previewFiles := [],
                  fileInputValue := map_option (\<lambda>v. []) (fileInputValue s),
                  console := console s @
                    concat (map (\<lambda>f. case validateFile f of
                            Inr ok \<Rightarrow> []
                          | Inl error \<Rightarrow>
                              [(''File validation failed for '' @ file_name f @ '':'',
                                error_message error)]) files) @
                    [(''Upload error:'', Err (Error ''No valid image files to upload''))],
                  progressReports := progressReports s @ [0, 0]\<rparr>" if "files \<noteq> []"
    using that
    by (simp add: handleFileUpload_def t validate_loop_snd setUploadProgress_def console_error_def
        Let_def split: option.splits)
  from a b show ?thesis by (simp add: t)
qed

theorem C3_handleFileUpload_no_valid_files_witness:
  "images (handleFileUpload
     \<lparr>readAsDataURL = (\<lambda>f. Loaded ''data:image/jpeg;base64,AAAA''), date_now = (\<lambda>i. 0),
      random_suffix = (\<lambda>i. []), date_iso = (\<lambda>i. [])\<rparr>
     (Some [\<lparr>file_name = ''big.jpg'', file_size = 11534336, file_type = ''image/jpeg''\<rparr>])
     initial_state) = []
   \<and> fst (upload_try
     \<lparr>readAsDataURL = (\<lambda>f. Loaded ''data:image/jpeg;base64,AAAA''), date_now = (\<lambda>i. 0),
      random_suffix = (\<lambda>i. []), date_iso = (\<lambda>i. [])\<rparr>
     [\<lparr>file_name = ''big.jpg'', file_size = 11534336, file_type = ''image/jpeg''\<rparr>]
     (setUploadProgress 0 (initial_state\<lparr>uploading := True\<rparr>)))
     = Some (Error ''No valid image files to upload'')"
proof -
  let ?env = "\<lparr>readAsDataURL = (\<lambda>f. Loaded ''data:image/jpeg;base64,AAAA''), date_now = (\<lambda>i. 0),
      random_suffix = (\<lambda>i. []), date_iso = (\<lambda>i. [])\<rparr>"
  let ?big = "\<lparr>file_name = ''big.jpg'', file_size = 11534336, file_type = ''image/jpeg''\<rparr>"
  have h: "\<forall>f \<in> set [?big]. validateFile f \<noteq> Inr True"
    by (simp add: validateFile_def validTypes_def maxSize_def)
  from C3_handleFileUpload_no_valid_files [OF h, of ?env initial_state]
  show ?thesis by (simp add: initial_state_def)
qed

text \<open>
  Claim C4, amended. In an upload of a batch that is not empty, with \<open>K\<close> valid files
  whose encodings all succeed, the values passed to \<^verbatim>\<open>setUploadProgress\<close> are 0, then
  \<open>((i + 1) / K) * 100\<close> for \<open>i = 0, \<dots>, K - 1\<close> as the program computes them in
  doubles, then 0. The values between the two zeros increase strictly, lie above 0 and
  at most at 100, differ from the exact \<open>100 (i + 1) / K\<close> by at most \<open>1 / 2 ^ 44\<close>, and
  the last of them is 100. A JavaScript array has fewer than \<open>2 ^ 32\<close> elements.
\<close>

theorem C4_progress:
  assumes "\<forall>f \<in> set files. validateFile f = Inr True \<longrightarrow> (\<exists>d. fileToBase64 env f = Inr d)"
    and "files \<noteq> []" and "length files < 2 ^ 32"
    and "K = length (filter (\<lambda>f. validateFile f = Inr True) files)"
  shows "progressReports (handleFileUpload env (Some files) s) =
           progressReports s @ [0] @
           map (\<lambda>i. js_mul (js_div (of_nat (i + 1)) (of_nat K)) 100) [0..<K] @ [0]
         \<and> sorted_wrt (<) (map (\<lambda>i. js_mul (js_div (of_nat (i + 1)) (of_nat K)) 100) [0..<K])
         \<and> (\<forall>i < K. 0 < js_mul (js_div (of_nat (i + 1)) (of_nat K)) 100
                    \<and> js_mul (js_div (of_nat (i + 1)) (of_nat K)) 100 \<le> 100
                    \<and> \<bar>js_mul (js_div (of_nat (i + 1)) (of_nat K)) 100
                         - 100 * (of_nat (i + 1) / of_nat K)\<bar> \<le> 1 / 2 ^ 44)
         \<and> (0 < K \<longrightarrow> last (map (\<lambda>i. js_mul (js_div (of_nat (i + 1)) (of_nat K)) 100) [0..<K]) = 100)"
proof -
  define VF where "VF = filter (\<lambda>f. validateFile f = Inr True) files"
  have K: "K = length VF" by (simp add: assms(4) VF_def)
  have "length VF \<le> length files" by (simp add: VF_def)
  with assms(3) have K32: "K < 2 ^ 32" by (simp add: K)
  have pa: "js_mul (js_div (of_nat (i + 1)) (of_nat K)) 100 = progress_at i K" for i
    by (simp add: progress_at_def)
  have ok: "\<exists>d. fileToBase64 env (VF ! j) = Inr d" if "j < length VF" for j
  proof -
    from that have "VF ! j \<in> set VF" by simp
    then have "VF ! j \<in> set files" "validateFile (VF ! j) = Inr True"
      by (simp_all add: VF_def)
    with assms(1) show ?thesis by blast
  qed
  have "concat (map (\<lambda>j. case fileToBase64 env (VF ! j) of
                         Inr d \<Rightarrow> [progress_at j (length VF)]
                       | Inl e \<Rightarrow> []) [0..<length VF])
        = concat (map (\<lambda>j. [progress_at j K]) [0..<length VF])"
  proof (rule arg_cong [where f = concat], rule map_cong)
    fix j assume "j \<in> set [0..<length VF]"
    then have "j < length VF" by simp
    from ok [OF this] obtain d where "fileToBase64 env (VF ! j) = Inr d" ..
    then show "(case fileToBase64 env (VF ! j) of
                         Inr d \<Rightarrow> [progress_at j (length VF)]
                       | Inl e \<Rightarrow> []) = [progress_at j K]"
      by (simp add: K)
  qed simp
  then have c: "concat (map (\<lambda>j. case fileToBase64 env (VF ! j) of
                         Inr d \<Rightarrow> [progress_at j (length VF)]
                       | Inl e \<Rightarrow> []) [0..<length VF]) = map (\<lambda>i. progress_at i K) [0..<K]"
    by (simp add: K)
  have c1: "progressReports (handleFileUpload env (Some files) s) =
           progressReports s @ [0] @ map (\<lambda>i. progress_at i K) [0..<K] @ [0]"
    using upload_try_reports [of env files "setUploadProgress 0 (s\<lparr>uploading := True\<rparr>)",
        folded VF_def] c assms(2)
    by (simp add: handleFileUpload_reports setUploadProgress_def)
  have c2: "sorted_wrt (<) (map (\<lambda>i. progress_at i K) [0..<K])"
    using K32 by (rule progress_at_sorted)
  have c3: "0 < progress_at i K \<and> progress_at i K \<le> 100
            \<and> \<bar>progress_at i K - 100 * (of_nat (i + 1) / of_nat K)\<bar> \<le> 1 / 2 ^ 44" if "i < K" for i
  proof -
    from that have K0: "0 < K" by simp
    have "(of_nat (i + 1) :: rat) / of_nat K \<le> 1"
      using that by simp
    then have "((of_nat (i + 1) :: rat) / of_nat K) / 2 ^ 44 \<le> 1 / 2 ^ 44"
      by (intro divide_right_mono) simp_all
    with progress_at_between [OF K0, of i] progress_at_le_100 [OF that K32]
    show ?thesis by linarith
  qed
  have c4: "last (map (\<lambda>i. progress_at i K) [0..<K]) = 100" if "0 < K"
    using that progress_at_last [OF that] by (simp add: last_map)
  from c1 c2 c3 c4 show ?thesis
    unfolding pa by blast
qed

theorem C4_progress_witness:
  "progressReports (handleFileUpload
     \<lparr>readAsDataURL = (\<lambda>f. Loaded ''data:image/png;base64,AAAA''), date_now = (\<lambda>i. 0),
      random_suffix = (\<lambda>i. []), date_iso = (\<lambda>i. [])\<rparr>
     (Some [\<lparr>file_name = ''a.png'', file_size = 2097152, file_type = ''image/png''\<rparr>,
            \<lparr>file_name = ''b.exe'', file_size = 1048576, file_type = ''application/exe''\<rparr>,
            \<lparr>file_name = ''c.gif'', file_size = 5, file_type = ''image/gif''\<rparr>])
     initial_state) = [0, 50, 100, 0]"
proof -
  let ?env = "\<lparr>readAsDataURL = (\<lambda>f. Loaded ''data:image/png;base64,AAAA''), date_now = (\<lambda>i. 0),
      random_suffix = (\<lambda>i. []), date_iso = (\<lambda>i. [])\<rparr>"
  let ?a = "\<lparr>file_name = ''a.png'', file_size = 2097152, file_type = ''image/png''\<rparr>"
  let ?b = "\<lparr>file_name = ''b.exe'', file_size = 1048576, file_type = ''application/exe''\<rparr>"
  let ?c = "\<lparr>file_name = ''c.gif'', file_size = 5, file_type = ''image/gif''\<rparr>"
  have h1: "\<forall>f \<in> set [?a, ?b, ?c]. validateFile f = Inr True \<longrightarrow> (\<exists>d. fileToBase64 ?env f = Inr d)"
    by (simp add: fileToBase64_def)
  have h2: "[?a, ?b, ?c] \<noteq> []" by simp
  have h3: "length [?a, ?b, ?c] < 2 ^ 32" by simp
  have h4: "2 = length (filter (\<lambda>f. validateFile f = Inr True) [?a, ?b, ?c])"
    by (simp add: validateFile_def validTypes_def maxSize_def)
  have r: "progressReports initial_state = []"
    by (simp add: initial_state_def)
  have u: "[0..<2] = [0, 1]"
    by (simp add: upt_rec)
  from C4_progress [OF h1 h2 h3 h4, of initial_state, THEN conjunct1]
  show ?thesis
    using progress_at_0_2 progress_at_1_2 by (simp add: r u progress_at_def)
qed

text \<open>
  Claim C4 as stated fails when an encoding fails: of two valid files the second cannot
  be read, and the values reported between the two zeros are 50 alone; 100 is never
  reported.
\<close>

theorem C4_progress_counterexample:
  "filter (\<lambda>f. validateFile f = Inr True)
     [\<lparr>file_name = ''a.png'', file_size = 2097152, file_type = ''image/png''\<rparr>,
      \<lparr>file_name = ''c.gif'', file_size = 5, file_type = ''image/gif''\<rparr>]
   = [\<lparr>file_name = ''a.png'', file_size = 2097152, file_type = ''image/png''\<rparr>,
      \<lparr>file_name = ''c.gif'', file_size = 5, file_type = ''image/gif''\<rparr>]
   \<and> progressReports (handleFileUpload
     \<lparr>readAsDataURL = (\<lambda>f. if file_name f = ''a.png'' then Loaded ''data:image/png;base64,AAAA''
                             else Failed),
      date_now = (\<lambda>i. 0), random_suffix = (\<lambda>i. []), date_iso = (\<lambda>i. [])\<rparr>
     (Some [\<lparr>file_name = ''a.png'', file_size = 2097152, file_type = ''image/png''\<rparr>,
            \<lparr>file_name = ''c.gif'', file_size = 5, file_type = ''image/gif''\<rparr>])
     initial_state) = [0, 50, 0]"
proof -
  let ?env = "\<lparr>readAsDataURL = (\<lambda>f. if file_name f = ''a.png'' then Loaded ''data:image/png;base64,AAAA''
                             else Failed),
      date_now = (\<lambda>i. 0), random_suffix = (\<lambda>i. []), date_iso = (\<lambda>i. [])\<rparr>"
  let ?a = "\<lparr>file_name = ''a.png'', file_size = 2097152, file_type = ''image/png''\<rparr>"
  let ?c = "\<lparr>file_name = ''c.gif'', file_size = 5, file_type = ''image/gif''\<rparr>"
  have v: "filter (\<lambda>f. validateFile f = Inr True) [?a, ?c] = [?a, ?c]"
    by (simp add: validateFile_def validTypes_def maxSize_def)
  have u: "[0..<2] = [0, 1]"
    by (simp add: upt_rec)
  have p: "progress_at 0 (Suc (Suc 0)) = 50"
    using progress_at_0_2 by (simp add: numeral_2_eq_2)
  have "progressReports (handleFileUpload ?env (Some [?a, ?c]) initial_state) = [0, 50, 0]"
    using upload_try_reports [of ?env "[?a, ?c]" "setUploadProgress 0 (initial_state\<lparr>uploading := True\<rparr>)",
        unfolded v]
    by (simp add: handleFileUpload_reports u fileToBase64_def p setUploadProgress_def
        initial_state_def)
  with v show ?thesis by simp
qed

section \<open>The parser consumes its input\<close>

lemma length_skip_ws: "length (skip_ws s) \<le> length s"
  by (simp add: skip_ws_def length_dropWhile_le)

lemma skip_ws_Cons_shorter: "skip_ws s = c # cs \<Longrightarrow> length cs < length s"
  using length_skip_ws [of s] by simp

lemma parse_chars_shorter: "parse_chars s = Some (str, r) \<Longrightarrow> length r < length s"
proof (induction s arbitrary: str r rule: parse_chars.induct)
  case 1
  then show ?case by simp
next
  case (2 c cs)
  then show ?case
    by (auto split: if_splits list.splits option.splits prod.splits) fastforce+
qed

lemma take_drop_While_length: "length (takeWhile P s) + length (dropWhile P s) = length s"
  by (metis length_append takeWhile_dropWhile_id)

lemma parse_frac_shorter: "parse_frac s = Some (fp, r) \<Longrightarrow> length r \<le> length s"
  using length_dropWhile_le [of is_digit "tl s"]
  by (auto simp: parse_frac_def Let_def split: list.splits if_splits)

lemma parse_exp_shorter: "parse_exp s = Some (ex, r) \<Longrightarrow> length r \<le> length s"
proof -
  assume a: "parse_exp s = Some (ex, r)"
  show ?thesis
  proof (cases s)
    case Nil
    with a show ?thesis by (simp add: parse_exp_def)
  next
    case (Cons c t)
    have "length (dropWhile is_digit (tl t)) \<le> length t"
      using length_dropWhile_le [of is_digit "tl t"] by simp
    moreover have "length (dropWhile is_digit t) \<le> length t"
      by (rule length_dropWhile_le)
    ultimately show ?thesis
      using a Cons by (auto simp: parse_exp_def Let_def split: if_splits)
  qed
qed

lemma parse_number_shorter: "parse_number s = Some (x, r) \<Longrightarrow> length r < length s"
proof -
  assume a: "parse_number s = Some (x, r)"
  define s1 where "s1 = (if (case s of [] \<Rightarrow> False | c # r \<Rightarrow> c = CHR ''-'') then tl s else s)"
  have s1: "length s1 \<le> length s" by (simp add: s1_def)
  from a have ip: "takeWhile is_digit s1 \<noteq> []"
    by (auto simp: parse_number_def Let_def s1_def split: if_splits)
  from a obtain fp s3 ex where f: "parse_frac (dropWhile is_digit s1) = Some (fp, s3)"
    and e: "parse_exp s3 = Some (ex, r)"
    by (auto simp: parse_number_def Let_def s1_def split: if_splits option.splits)
  from ip take_drop_While_length [of is_digit s1]
  have "length (dropWhile is_digit s1) < length s1"
    by (cases "takeWhile is_digit s1") simp_all
  with parse_frac_shorter [OF f] parse_exp_shorter [OF e] s1 show ?thesis by simp
qed

lemma parse_literal_shorter:
  "parse_literal w v s = Some (x, r) \<Longrightarrow> w \<noteq> [] \<Longrightarrow> length r < length s"
  by (auto simp: parse_literal_def prefix_def split: if_splits)

lemma parse_value_shorter:
  "parse_value s = Some (v, r) \<Longrightarrow> length r < length s"
  "parse_elements s' = Some (vs, r') \<Longrightarrow> length r' < length s'"
  "parse_members s'' = Some (ms, r'') \<Longrightarrow> length r'' < length s''"
proof (induction s and s' and s'' arbitrary: v r and vs r' and ms r''
    rule: parse_value_parse_elements_parse_members.induct)
  case (1 s)
  from "1.prems" obtain c cs where sk: "skip_ws s = c # cs"
    by (subst (asm) parse_value.simps) (auto split: list.splits)
  have cs: "length cs < length s"
    using sk by (rule skip_ws_Cons_shorter)
  show ?case
  proof (cases "c = CHR ''{'' \<or> c = CHR ''[''")
    case True
    from "1.prems" obtain c' cs' where sk': "skip_ws cs = c' # cs'"
      using sk True by (subst (asm) parse_value.simps) (auto split: list.splits if_splits)
    have cs': "length cs' < length cs"
      using sk' by (rule skip_ws_Cons_shorter)
    have le: "length (c' # cs') \<le> length cs"
      using length_skip_ws [of cs] by (simp add: sk')
    show ?thesis
    proof (cases "c = CHR ''{''")
      case T: True
      show ?thesis
      proof (cases "c' = CHR ''}''")
        case True
        with "1.prems" sk sk' T cs cs' show ?thesis
          by (subst (asm) parse_value.simps) simp
      next
        case False
        with "1.prems" sk sk' T obtain ms where "parse_members (c' # cs') = Some (ms, r)"
          by (subst (asm) parse_value.simps) auto
        from "1.IH"(1) [OF sk T sk' False this] le cs show ?thesis by simp
      qed
    next
      case F: False
      with True have B: "c = CHR ''[''" by simp
      show ?thesis
      proof (cases "c' = CHR '']''")
        case True
        with "1.prems" sk sk' B cs cs' show ?thesis
          by (subst (asm) parse_value.simps) simp
      next
        case False
        with "1.prems" sk sk' B obtain vs where "parse_elements (c' # cs') = Some (vs, r)"
          by (subst (asm) parse_value.simps) auto
        from "1.IH"(2) [OF sk F B sk' False this] le cs show ?thesis by simp
      qed
    qed
  next
    case False
    with "1.prems" sk
    have "(\<exists>str. parse_chars cs = Some (str, r))
          \<or> (\<exists>w x. w \<noteq> [] \<and> parse_literal w x (c # cs) = Some (v, r))
          \<or> (\<exists>x. parse_number (c # cs) = Some (x, r))"
      by (subst (asm) parse_value.simps) (auto split: if_splits)
    then show ?thesis
      using parse_chars_shorter [of cs _ r] parse_literal_shorter [of _ _ "c # cs" v r]
        parse_number_shorter [of "c # cs" _ r] cs length_skip_ws [of s] sk
      by (metis le_trans length_Cons less_Suc_eq less_imp_le_nat not_less)
  qed
next
  case (2 s)
  from "2.prems" obtain v r0 where pv: "parse_value s = Some (v, r0)" and g: "length r0 < length s"
    by (subst (asm) parse_elements.simps) (auto split: option.splits if_splits)
  from "2.prems" pv g obtain c cs where sk: "skip_ws r0 = c # cs"
    by (subst (asm) parse_elements.simps) (auto split: list.splits)
  have cs: "length cs < length r0"
    using sk by (rule skip_ws_Cons_shorter)
  show ?case
  proof (cases "c = CHR '',''")
    case True
    with "2.prems" pv g sk obtain vs' where "parse_elements cs = Some (vs', r')"
      by (subst (asm) parse_elements.simps) auto
    from "2.IH"(2) [OF pv refl g sk True this] cs g show ?thesis by simp
  next
    case False
    with "2.prems" pv g sk have "r' = cs"
      by (subst (asm) parse_elements.simps) (auto split: if_splits)
    with cs g show ?thesis by simp
  qed
next
  case (3 s)
  from "3.prems" obtain c cs where sk: "skip_ws s = c # cs" and q: "c = CHR 0x22"
    by (subst (asm) parse_members.simps) (auto split: list.splits if_splits)
  from "3.prems" sk q obtain k r1 where pc: "parse_chars cs = Some (k, r1)"
    by (subst (asm) parse_members.simps) (auto split: option.splits)
  from "3.prems" sk q pc obtain c2 r2 where sk2: "skip_ws r1 = c2 # r2" and col: "c2 = CHR '':''"
    by (subst (asm) parse_members.simps) (auto split: list.splits if_splits)
  from "3.prems" sk q pc sk2 col obtain v r3 where pv: "parse_value r2 = Some (v, r3)"
    and g: "length r3 < length r2"
    by (subst (asm) parse_members.simps) (auto split: option.splits if_splits)
  from "3.prems" sk q pc sk2 col pv g obtain c3 r4 where sk3: "skip_ws r3 = c3 # r4"
    by (subst (asm) parse_members.simps) (auto split: list.splits)
  have len: "length r4 < length s"
    using skip_ws_Cons_shorter [OF sk] parse_chars_shorter [OF pc] skip_ws_Cons_shorter [OF sk2] g
      skip_ws_Cons_shorter [OF sk3] by simp
  show ?case
  proof (cases "c3 = CHR '',''")
    case True
    with "3.prems" sk q pc sk2 col pv g sk3 obtain ms' where "parse_members r4 = Some (ms', r'')"
      by (subst (asm) parse_members.simps) auto
    from "3.IH"(2) [OF sk q pc refl sk2 col pv refl g sk3 True this] len show ?thesis by simp
  next
    case False
    with "3.prems" sk q pc sk2 col pv g sk3 have "r'' = r4"
      by (subst (asm) parse_members.simps) (auto split: if_splits)
    with len show ?thesis by simp
  qed
qed

section \<open>Parsing what was written\<close>

lemma hex_val_hex_digit: "k < 16 \<Longrightarrow> hex_val (hex_digit k) = Some k"
  by (auto simp: hex_val_def hex_digit_def Let_def)

lemma parse_chars_quote_unit:
  "parse_chars (quote_unit c @ t) =
     map_option (\<lambda>(str, r). (of_char c # str, r)) (parse_chars t)"
proof -
  define n where "n = (of_char c :: nat)"
  have c: "c = d \<longleftrightarrow> n = of_char d" for d
    by (simp add: n_def of_char_eq_iff)
  consider "n = 8" | "n = 9" | "n = 10" | "n = 12" | "n = 13" | "n = 34" | "n = 92"
    | "n < 32" "n \<notin> {8, 9, 10, 12, 13}" | "32 \<le> n" "n \<noteq> 34" "n \<noteq> 92"
    by fastforce
  then show ?thesis
  proof cases
    case 8
    then have h: "n div 16 < 16" "n mod 16 < 16" "(n div 16) * 16 + n mod 16 = n"
      by simp_all
    have z: "hex_val CHR ''0'' = Some 0"
      by (simp add: hex_val_def)
    from 8 show ?thesis
      unfolding quote_unit_def n_def [symmetric] Let_def
      by (simp add: c hex_val_hex_digit h z)
  next
    case 9
    then show ?thesis
      unfolding quote_unit_def n_def [symmetric] Let_def
      by (simp add: c) (simp add: n_def)
  qed (simp_all add: quote_unit_def n_def [symmetric] Let_def c unescape_def)
qed


lemma parse_chars_escaped:
  "parse_chars (concat (map quote_unit s) @ CHR 0x22 # rest) = Some (map of_char s, rest)"
  by (induction s) (simp_all add: parse_chars_quote_unit)

lemma skip_ws_no_ws: "\<not> is_ws c \<Longrightarrow> skip_ws (c # cs) = c # cs"
  by (simp add: skip_ws_def)

lemma parse_value_quote:
  "parse_value (quote s @ rest) = Some (JString (map of_char s), rest)"
  by (subst parse_value.simps)
    (simp add: quote_def skip_ws_no_ws is_ws_def parse_chars_escaped)

lemma parse_number_nat:
  assumes "\<not> is_digit c" "c \<noteq> CHR ''.''" "c \<noteq> CHR ''e''" "c \<noteq> CHR ''E''"
  shows "parse_number (nat_toString n @ c # rest) = Some (of_nat n, c # rest)"
proof -
  obtain d ds where ds: "nat_toString n = d # ds"
    using nat_toString_not_Nil [of n] by (cases "nat_toString n") auto
  have all: "\<And>x. x \<in> set (nat_toString n) \<Longrightarrow> is_digit x"
    using nat_toString_digits [of n] by (simp add: list_all_iff)
  have d: "d \<noteq> CHR ''-''"
    using all [of d] by (auto simp: ds is_digit_def)
  have tw: "takeWhile is_digit (nat_toString n @ c # rest) = nat_toString n"
    using all assms(1) by (simp add: takeWhile_append2)
  have dw: "dropWhile is_digit (nat_toString n @ c # rest) = c # rest"
    using all assms(1) by (simp add: dropWhile_append2)
  have m: "(case nat_toString n @ c # rest of [] \<Rightarrow> False | c # r \<Rightarrow> c = CHR ''-'') = False"
    using d by (simp add: ds)
  show ?thesis
    unfolding parse_number_def m Let_def
    using nat_toString_leading [of n] assms
    by (simp add: tw dw nat_toString_not_Nil parse_frac_def parse_exp_def digits_val_nat_toString
        digits_val_Nil)
qed

lemma parse_value_nat:
  "parse_value (nat_toString n @ CHR '','' # rest) =
     Some (JNumber (string_to_number (of_nat n)), CHR '','' # rest)"
proof -
  obtain d ds where ds: "nat_toString n = d # ds"
    using nat_toString_not_Nil [of n] by (cases "nat_toString n") auto
  have "is_digit d"
    using nat_toString_digits [of n] by (simp add: ds)
  then have d: "\<not> is_ws d" "d \<noteq> CHR ''{''" "d \<noteq> CHR ''[''" "d \<noteq> CHR 0x22"
    "d \<noteq> CHR ''t''" "d \<noteq> CHR ''f''" "d \<noteq> CHR ''n''"
    by (auto simp: is_digit_def is_ws_def)
  have p: "parse_number (d # ds @ CHR '','' # rest) = Some (of_nat n, CHR '','' # rest)"
    using parse_number_nat [of "CHR '',''" n rest] by (simp add: ds is_digit_def)
  show ?thesis
    by (subst parse_value.simps) (simp add: ds skip_ws_no_ws d p)
qed

lemma quote_Cons: "quote k @ t = CHR 0x22 # concat (map quote_unit k) @ CHR 0x22 # t"
  by (simp add: quote_def)

lemma parse_members_more:
  assumes "parse_value (vt @ CHR '','' # rest) = Some (v, CHR '','' # rest)" "vt \<noteq> []"
  shows "parse_members (quote k @ CHR '':'' # vt @ CHR '','' # rest) =
           map_option (\<lambda>(ms, r'). ((map of_char k, v) # ms, r')) (parse_members rest)"
  using assms(2)
  by (subst parse_members.simps)
    (simp add: quote_Cons skip_ws_no_ws is_ws_def parse_chars_escaped assms(1))

lemma parse_members_last:
  assumes "parse_value (vt @ CHR ''}'' # rest) = Some (v, CHR ''}'' # rest)" "vt \<noteq> []"
  shows "parse_members (quote k @ CHR '':'' # vt @ CHR ''}'' # rest) =
           Some ([(map of_char k, v)], rest)"
  using assms(2)
  by (subst parse_members.simps)
    (simp add: quote_Cons skip_ws_no_ws is_ws_def parse_chars_escaped assms(1))

lemma parse_value_brace:
  "parse_value (CHR ''{'' # quote k @ t) =
     map_option (\<lambda>(ms, r). (JObject ms, r)) (parse_members (quote k @ t))"
  by (subst parse_value.simps) (simp add: quote_Cons skip_ws_no_ws is_ws_def)

lemma quote_not_Nil: "quote s \<noteq> []"
  by (simp add: quote_def)

lemma parse_value_image:
  "parse_value (stringify_image img @ t) = Some (json_of img, t)"
proof -
  have str: "parse_value (quote x @ c # r) = Some (JString (map of_char x), c # r)" for x c r
    by (rule parse_value_quote)
  show ?thesis
    unfolding stringify_image_def json_of_def
    by (simp add: parse_value_brace parse_members_more parse_members_last str parse_value_nat
        quote_not_Nil nat_toString_not_Nil)
qed


lemma stringify_image_Cons: "\<exists>q. stringify_image img = CHR ''{'' # q"
  by (simp add: stringify_image_def)

lemma join_commas_Cons:
  "g \<noteq> [] \<Longrightarrow> \<exists>q. join_commas (map stringify_image g) = CHR ''{'' # q"
proof (induction g rule: induct_list012)
  case 1
  then show ?case by simp
next
  case (2 x)
  then show ?case using stringify_image_Cons [of x] by simp
next
  case (3 x y zs)
  then show ?case using stringify_image_Cons [of x] by auto
qed

lemma parse_elements_join:
  "g \<noteq> [] \<Longrightarrow>
   parse_elements (join_commas (map stringify_image g) @ CHR '']'' # rest) =
     Some (map json_of g, rest)"
proof (induction g rule: induct_list012)
  case 1
  then show ?case by simp
next
  case (2 x)
  obtain q where q: "stringify_image x = CHR ''{'' # q"
    using stringify_image_Cons by blast
  have "parse_value (stringify_image x @ CHR '']'' # rest) = Some (json_of x, CHR '']'' # rest)"
    by (rule parse_value_image)
  then show ?case
    by (subst parse_elements.simps) (simp add: q skip_ws_no_ws is_ws_def)
next
  case (3 x y zs)
  obtain q where q: "stringify_image x = CHR ''{'' # q"
    using stringify_image_Cons by blast
  have "parse_value (stringify_image x @ CHR '','' # join_commas (map stringify_image (y # zs)) @ CHR '']'' # rest)
          = Some (json_of x, CHR '','' # join_commas (map stringify_image (y # zs)) @ CHR '']'' # rest)"
    by (rule parse_value_image)
  moreover have "parse_elements (join_commas (map stringify_image (y # zs)) @ CHR '']'' # rest) =
     Some (map json_of (y # zs), rest)"
    using 3 by simp
  ultimately show ?case
    by (subst parse_elements.simps) (simp add: q skip_ws_no_ws is_ws_def)
qed

lemma skip_ws_Nil: "skip_ws [] = []"
  by (simp add: skip_ws_def)

lemma JSON_parse_stringify: "JSON_parse (JSON_stringify g) = Some (JArray (map json_of g))"
proof (cases "g = []")
  case True
  have "parse_value ''[]'' = Some (JArray [], [])"
    by (subst parse_value.simps) (simp add: skip_ws_no_ws is_ws_def)
  with True show ?thesis
    by (simp add: JSON_parse_def JSON_stringify_def skip_ws_Nil)
next
  case False
  from join_commas_Cons [OF False] obtain q where q: "join_commas (map stringify_image g) = CHR ''{'' # q"
    by blast
  have e: "parse_elements (CHR ''{'' # q @ '']'') = Some (map json_of g, [])"
    using parse_elements_join [OF False, of "[]"] by (simp add: q)
  have "parse_value (CHR ''['' # CHR ''{'' # q @ '']'') = Some (JArray (map json_of g), [])"
    by (subst parse_value.simps) (simp add: skip_ws_no_ws is_ws_def e)
  then show ?thesis
    by (simp add: JSON_parse_def JSON_stringify_def skip_ws_Nil q)
qed

lemma as_string_of_char: "as_string (Some (JString (map of_char s))) = Some s"
  by (simp add: as_string_def list_all_iff of_char_lt_256 comp_def)

lemma as_size_of_nat:
  assumes "n < 2 ^ 53"
  shows "as_size (Some (JNumber (string_to_number (of_nat n)))) = Some n"
proof -
  have "(of_nat n :: rat) < of_nat (2 ^ 53)"
    using assms by (simp only: of_nat_less_iff)
  then show ?thesis
    by (simp add: as_size_def string_to_number_nat [OF assms])
qed

lemma as_ImageData_json_of:
  "image_size img < 2 ^ 53 \<Longrightarrow> as_ImageData (json_of img) = Some img"
  by (simp add: as_ImageData_def json_of_def get_member_def as_string_of_char as_size_of_nat)

lemma as_images_json_of: "small_sizes g \<Longrightarrow> as_images (JArray (map json_of g)) = Some g"
  by (induction g) (simp_all add: as_images_def as_ImageData_json_of small_sizes_def)




lemma JSON_stringify_not_Nil: "JSON_stringify g \<noteq> []"
  by (simp add: JSON_stringify_def)

section \<open>Saving and loading\<close>

lemma load_effect_images:
  "map_option images (typed (load_effect st s)) =
     (case getItem st ''gallery-images'' of
        None \<Rightarrow> Some (images s)
      | Some blob \<Rightarrow>
          if blob = [] then Some (images s)
          else (case JSON_parse blob of
                  None \<Rightarrow> Some []
                | Some v \<Rightarrow> as_images v))"
  by (simp add: load_effect_def typed_def load_theme_def console_error_def split: option.splits)

lemma load_effect_console:
  "map_option console (typed (load_effect st s)) =
     (case getItem st ''gallery-images'' of
        None \<Rightarrow> Some (console s)
      | Some blob \<Rightarrow>
          if blob = [] then Some (console s)
          else (case JSON_parse blob of
                  None \<Rightarrow> Some (console s @ [(''Error loading saved images:'', Err SyntaxError)])
                | Some v \<Rightarrow> map_option (\<lambda>imgs. console s) (as_images v)))"
  by (simp add: load_effect_def typed_def load_theme_def console_error_def split: option.splits)

lemma save_images_accepted:
  "accepts st ''gallery-images'' (JSON_stringify imgs) \<Longrightarrow>
   save_images imgs s st =
     (s, st\<lparr>items := (items st)(''gallery-images'' \<mapsto> JSON_stringify imgs)\<rparr>)"
  by (simp add: save_images_def setItem_def)

lemma save_images_refused:
  "\<not> accepts st ''gallery-images'' (JSON_stringify imgs) \<Longrightarrow>
   save_images imgs s st =
     (console_error ''Error saving images:'' (Err QuotaExceededError) s, st)"
  by (simp add: save_images_def setItem_def)

lemma JSON_parse_Nil: "JSON_parse [] = None"
proof -
  have "parse_value [] = None"
    by (subst parse_value.simps) (simp add: skip_ws_Nil)
  then show ?thesis by (simp add: JSON_parse_def)
qed

lemma JSON_parse_oops: "JSON_parse ''oops'' = None"
proof -
  have "parse_value ''oops'' = None"
    by (subst parse_value.simps)
      (simp add: skip_ws_no_ws is_ws_def parse_number_def is_digit_def)
  then show ?thesis by (simp add: JSON_parse_def)
qed

text \<open>
  Claim C5, amended. Let every size in the gallery be below \<open>2 ^ 53\<close>, as the sizes of
  the program are. When the browser accepts the write, the save effect logs nothing and
  the load effect that follows gives back the gallery that was saved: the same records
  with the same seven fields, in the same order, for a gallery of any length. When the
  browser refuses the write, the save effect logs the error and leaves the state's
  gallery and the storage as they were, so the load effect that follows gives what it
  would have given before the save.
\<close>

theorem C5_save_load:
  assumes "small_sizes (images s)"
  shows "(accepts st ''gallery-images'' (JSON_stringify (images s)) \<longrightarrow>
            map_option images (typed (load_effect (snd (save_effect s st)) s0)) = Some (images s)
            \<and> fst (save_effect s st) = s)
         \<and> (\<not> accepts st ''gallery-images'' (JSON_stringify (images s)) \<longrightarrow>
            save_effect s st =
              (console_error ''Error saving images:'' (Err QuotaExceededError) s, st)
            \<and> images (fst (save_effect s st)) = images s
            \<and> load_effect (snd (save_effect s st)) s0 = load_effect st s0)"
proof (intro conjI impI)
  assume a: "accepts st ''gallery-images'' (JSON_stringify (images s))"
  show "map_option images (typed (load_effect (snd (save_effect s st)) s0)) = Some (images s)"
    using assms
    by (simp add: save_effect_def save_images_accepted [OF a] load_effect_images getItem_def
        JSON_stringify_not_Nil JSON_parse_stringify as_images_json_of)
  show "fst (save_effect s st) = s"
    by (simp add: save_effect_def save_images_accepted [OF a])
next
  assume r: "\<not> accepts st ''gallery-images'' (JSON_stringify (images s))"
  show "save_effect s st = (console_error ''Error saving images:'' (Err QuotaExceededError) s, st)"
    by (simp add: save_effect_def save_images_refused [OF r])
  show "images (fst (save_effect s st)) = images s"
    by (simp add: save_effect_def save_images_refused [OF r] console_error_def)
  show "load_effect (snd (save_effect s st)) s0 = load_effect st s0"
    by (simp add: save_effect_def save_images_refused [OF r])
qed

theorem C5_save_load_witness:
  "map_option images
     (typed (load_effect
        (snd (save_effect
           (initial_state\<lparr>images :=
              [\<lparr>image_id = ''1a'', image_name = ''a'', originalName = ''a.png'',
                src = ''data:image/png;base64,AAAA'', image_size = 3, image_type = ''image/png'',
                uploadDate = ''2024-01-01T00:00:00.000Z''\<rparr>]\<rparr>)
           \<lparr>items = Map.empty, accepts = (\<lambda>key v. True)\<rparr>))
        initial_state))
   = Some [\<lparr>image_id = ''1a'', image_name = ''a'', originalName = ''a.png'',
             src = ''data:image/png;base64,AAAA'', image_size = 3, image_type = ''image/png'',
             uploadDate = ''2024-01-01T00:00:00.000Z''\<rparr>]
   \<and> snd (save_effect
           (initial_state\<lparr>images :=
              [\<lparr>image_id = ''1a'', image_name = ''a'', originalName = ''a.png'',
                src = ''data:image/png;base64,AAAA'', image_size = 3, image_type = ''image/png'',
                uploadDate = ''2024-01-01T00:00:00.000Z''\<rparr>]\<rparr>)
           \<lparr>items = [''gallery-images'' \<mapsto> ''[]''], accepts = (\<lambda>key v. False)\<rparr>)
     = \<lparr>items = [''gallery-images'' \<mapsto> ''[]''], accepts = (\<lambda>key v. False)\<rparr>
   \<and> console (fst (save_effect
           (initial_state\<lparr>images :=
              [\<lparr>image_id = ''1a'', image_name = ''a'', originalName = ''a.png'',
                src = ''data:image/png;base64,AAAA'', image_size = 3, image_type = ''image/png'',
                uploadDate = ''2024-01-01T00:00:00.000Z''\<rparr>]\<rparr>)
           \<lparr>items = [''gallery-images'' \<mapsto> ''[]''], accepts = (\<lambda>key v. False)\<rparr>))
     = [(''Error saving images:'', Err QuotaExceededError)]"
proof -
  let ?g = "[\<lparr>image_id = ''1a'', image_name = ''a'', originalName = ''a.png'',
                src = ''data:image/png;base64,AAAA'', image_size = 3, image_type = ''image/png'',
                uploadDate = ''2024-01-01T00:00:00.000Z''\<rparr>]"
  let ?s = "initial_state\<lparr>images := ?g\<rparr>"
  let ?yes = "\<lparr>items = Map.empty, accepts = (\<lambda>key v. True)\<rparr>"
  let ?no = "\<lparr>items = [''gallery-images'' \<mapsto> ''[]''], accepts = (\<lambda>key v. False)\<rparr>"
  have small: "small_sizes (images ?s)"
    by (simp add: small_sizes_def)
  have c: "console initial_state = []"
    by (simp add: initial_state_def)
  from C5_save_load [OF small, of ?yes initial_state]
  have "map_option images (typed (load_effect (snd (save_effect ?s ?yes)) initial_state)) = Some ?g"
    by simp
  moreover from C5_save_load [OF small, of ?no initial_state]
  have "save_effect ?s ?no =
          (console_error ''Error saving images:'' (Err QuotaExceededError) ?s, ?no)"
    by simp
  ultimately show ?thesis
    by (simp add: console_error_def c)
qed

text \<open>
  Claim C5 as stated fails when the write is refused (the quota is exceeded): the
  error is caught, the storage keeps what it had, here nothing, and the load gives
  the empty gallery, not the gallery of one record that was saved.
\<close>

theorem C5_save_load_counterexample:
  "map_option images
     (typed (load_effect
        (snd (save_effect
           (initial_state\<lparr>images :=
              [\<lparr>image_id = ''1a'', image_name = ''a'', originalName = ''a.png'',
                src = ''data:image/png;base64,AAAA'', image_size = 3, image_type = ''image/png'',
                uploadDate = ''2024-01-01T00:00:00.000Z''\<rparr>]\<rparr>)
           \<lparr>items = Map.empty, accepts = (\<lambda>key v. False)\<rparr>))
        initial_state))
   = Some []"
  by (simp add: save_effect_def save_images_refused load_effect_images getItem_def initial_state_def)

text \<open>
  Claim C6, amended. When the stored blob does not parse, the load effect completes:
  no error reaches the caller. If the blob is not the empty string, the gallery is set
  to the empty list and the failure is logged. The empty string is falsy and is not
  parsed at all: the gallery stays as it was, which is empty at startup, and nothing
  is logged.
\<close>

theorem C6_load_parse_failure:
  assumes "getItem st ''gallery-images'' = Some blob" and "JSON_parse blob = None"
  shows "typed (load_effect st s) \<noteq> None
         \<and> (blob \<noteq> [] \<longrightarrow>
              map_option images (typed (load_effect st s)) = Some []
              \<and> map_option console (typed (load_effect st s)) =
                  Some (console s @ [(''Error loading saved images:'', Err SyntaxError)]))
         \<and> (blob = [] \<longrightarrow>
              map_option images (typed (load_effect st s)) = Some (images s)
              \<and> map_option console (typed (load_effect st s)) = Some (console s))"
proof -
  have "typed (load_effect st s) \<noteq> None"
    using assms by (simp add: load_effect_def typed_def)
  then show ?thesis
    using assms by (simp add: load_effect_images load_effect_console)
qed

theorem C6_load_parse_failure_witness:
  "map_option images
     (typed (load_effect \<lparr>items = [''gallery-images'' \<mapsto> ''oops''], accepts = (\<lambda>key v. True)\<rparr>
        initial_state)) = Some []
   \<and> map_option console
     (typed (load_effect \<lparr>items = [''gallery-images'' \<mapsto> ''oops''], accepts = (\<lambda>key v. True)\<rparr>
        initial_state)) = Some [(''Error loading saved images:'', Err SyntaxError)]
   \<and> map_option images
     (typed (load_effect \<lparr>items = [''gallery-images'' \<mapsto> []], accepts = (\<lambda>key v. True)\<rparr>
        initial_state)) = Some []"
proof -
  let ?st = "\<lparr>items = [''gallery-images'' \<mapsto> ''oops''], accepts = (\<lambda>key v. True)\<rparr>"
  let ?st' = "\<lparr>items = [''gallery-images'' \<mapsto> []], accepts = (\<lambda>key v. True)\<rparr>"
  have g: "getItem ?st ''gallery-images'' = Some ''oops''"
    by (simp add: getItem_def)
  have g': "getItem ?st' ''gallery-images'' = Some []"
    by (simp add: getItem_def)
  have c: "console initial_state = []" "images initial_state = []"
    by (simp_all add: initial_state_def)
  from C6_load_parse_failure [OF g JSON_parse_oops, of initial_state]
    C6_load_parse_failure [OF g' JSON_parse_Nil, of initial_state]
  show ?thesis by (simp add: c)
qed

text \<open>
  Claim C6 as stated fails for the empty string: it does not parse as JSON, and the
  load effect logs nothing.
\<close>

theorem C6_load_parse_failure_counterexample:
  "JSON_parse [] = None
   \<and> map_option console
     (typed (load_effect \<lparr>items = [''gallery-images'' \<mapsto> []], accepts = (\<lambda>key v. True)\<rparr>
        initial_state)) = Some []"
  by (simp add: JSON_parse_Nil load_effect_console getItem_def initial_state_def)

section \<open>The accepted types as an invariant\<close>















end
